theory Spec2Isabelle
  imports Complex_Main
begin

section \<open>Data model\<close>

text \<open>
  The layout core of the repository (\<^verbatim>\<open>layoutEngine\<close>, \<^verbatim>\<open>sceneComposer\<close> and
  \<^verbatim>\<open>types\<close>) is embedded shallowly. JavaScript numbers are modelled as reals, so
  the theory describes the program wherever its arithmetic stays finite (no NaN, no
  infinities, no rounding). Numbers that count are integers: the column limit
  \<^verbatim>\<open>maxColumns\<close> is an \<open>int\<close>, column counts, array indices and the natural
  size of an image are naturals. A string is a list of characters; one \<open>char\<close> stands
  for one unit of the source string.

  The warning messages of the source are five pairwise different string literals. They
  are modelled by one constructor each, so that equality of constructors is the exact
  string equality of the source.
\<close>

datatype warning =
    InvalidSafeRect    \<comment> \<open>autoLayout: the safe area has no valid size\<close>
  | ColumnTooNarrow    \<comment> \<open>layoutWithConfig: column width at most 20\<close>
  | ColumnOverflow     \<comment> \<open>layoutWithConfig: still overflowing after the last column\<close>
  | ContentTooLarge    \<comment> \<open>autoLayout: generic message when nothing was recorded\<close>
  | OutsideSafeRect    \<comment> \<open>applyTextOffset: the text left the safe area\<close>

record InlineAsset =
  asset_id :: string
  asset_name :: string
  dataUrl :: string
  naturalWidth :: nat
  naturalHeight :: nat

record Rect =
  rect_x :: real
  rect_y :: real
  rect_width :: real
  rect_height :: real

datatype LayoutToken = TextToken string | AssetToken InlineAsset

section \<open>Tokenizer\<close>

text \<open>
  \<^verbatim>\<open>ASSET_TOKEN_REGEX = /\[\[asset:([^\]]+)\]\]/g\<close>. A match at the start of \<open>s\<close> is
  the literal prefix, a longest non-empty run of characters other than the closing
  bracket, and the literal suffix. The greedy run never has to give characters back:
  the suffix starts with a closing bracket, which the run does not contain.
  \<open>match_at\<close> returns the captured identifier and what follows the match.
\<close>

definition match_at :: "string \<Rightarrow> (string \<times> string) option" where
  "match_at s =
     (if take 8 s = ''[[asset:'' then
        (let body = drop 8 s;
             ident = takeWhile (\<lambda>c. c \<noteq> CHR '']'') body;
             rest = dropWhile (\<lambda>c. c \<noteq> CHR '']'') body
         in if ident \<noteq> [] \<and> take 2 rest = '']]'' then Some (ident, drop 2 rest) else None)
      else None)"

definition marker :: "string \<Rightarrow> string" where
  "marker ident = ''[[asset:'' @ ident @ '']]''"

text \<open>
  \<^verbatim>\<open>input.replace(ASSET_TOKEN_REGEX, callback)\<close> with a global regex scans from left
  to right for non-overlapping matches. Each match is handed to the callback as
  (match, assetId, offset).
\<close>

function regex_matches :: "nat \<Rightarrow> string \<Rightarrow> (string \<times> string \<times> nat) list" where
  "regex_matches off s =
     (if s = [] then []
      else (case match_at s of
              Some (ident, rest) \<Rightarrow>
                (marker ident, ident, off) # regex_matches (off + length (marker ident)) rest
            | None \<Rightarrow> regex_matches (off + 1) (tl s)))"
  by pat_completeness auto
termination
proof (relation "measure (\<lambda>(off, s). length s)", goal_cases)
  case 1
  show ?case by simp
next
  case (2 off s)
  then show ?case by simp
next
  case (3 off s p ident rest)
  have r: "rest = drop 2 (dropWhile (\<lambda>c. c \<noteq> CHR '']'') (drop 8 s))"
    using 3 by (auto simp: match_at_def Let_def split: if_splits)
  have "length (dropWhile (\<lambda>c. c \<noteq> CHR '']'') (drop 8 s)) \<le> length (drop 8 s)"
    by (rule length_dropWhile_le)
  then have "length rest \<le> length s" by (simp add: r)
  moreover have "length rest \<noteq> length s"
  proof
    assume e: "length rest = length s"
    have "length rest \<le> length s - 8 - 2"
      using length_dropWhile_le [of "\<lambda>c. c \<noteq> CHR '']''" "drop 8 s"] by (simp add: r)
    then have "length s = 0" using e by arith
    then show False using 3 by simp
  qed
  ultimately show ?case by simp
qed

declare regex_matches.simps [simp del]

record TokState =
  results :: "LayoutToken list"
  lastIndex :: nat

text \<open>\<^verbatim>\<open>input.slice(a, b)\<close> and \<^verbatim>\<open>input.slice(a)\<close> for \<open>a \<le> b\<close>.\<close>

definition slice :: "string \<Rightarrow> nat \<Rightarrow> nat \<Rightarrow> string" where
  "slice input a b = take (b - a) (drop a input)"

text \<open>\<^verbatim>\<open>new Map(assets.map((asset) => [asset.id, asset]))\<close>: a later entry replaces an
  earlier one with the same key.\<close>

definition assetMapOf :: "InlineAsset list \<Rightarrow> (string \<rightharpoonup> InlineAsset)" where
  "assetMapOf assets = foldl (\<lambda>m a. m(asset_id a \<mapsto> a)) Map.empty assets"

definition replace_callback ::
  "string \<Rightarrow> (string \<rightharpoonup> InlineAsset) \<Rightarrow> TokState \<Rightarrow> string \<times> string \<times> nat \<Rightarrow> TokState" where
  "replace_callback input assetMap st m =
     (case m of (match, assetId, offset) \<Rightarrow>
        (let results1 =
               (if offset > lastIndex st then
                  (let sl = slice input (lastIndex st) offset
                   in if sl \<noteq> [] then results st @ [TextToken sl] else results st)
                else results st);
             results2 =
               (case assetMap assetId of
                  Some asset \<Rightarrow> results1 @ [AssetToken asset]
                | None \<Rightarrow> results1 @ [TextToken match])
         in \<lparr>results = results2, lastIndex = offset + length match\<rparr>))"

definition tokenizeText :: "string \<Rightarrow> InlineAsset list \<Rightarrow> LayoutToken list" where
  "tokenizeText input assets =
     (let assetMap = assetMapOf assets;
          st = foldl (replace_callback input assetMap) \<lparr>results = [], lastIndex = 0\<rparr>
                 (regex_matches 0 input);
          tail = drop (lastIndex st) input;
          results1 = (if tail \<noteq> [] then results st @ [TextToken tail] else results st)
      in if results1 = [] then [TextToken []] else results1)"

text \<open>Rendering a token back to the text it came from.\<close>

fun render :: "LayoutToken \<Rightarrow> string" where
  "render (TextToken v) = v"
| "render (AssetToken a) = marker (asset_id a)"

definition render_all :: "LayoutToken list \<Rightarrow> string" where
  "render_all ts = concat (map render ts)"

text \<open>The token a marker turns into: the asset when the identifier is registered, the
  marker's own text otherwise.\<close>

definition marker_token :: "(string \<rightharpoonup> InlineAsset) \<Rightarrow> string \<times> string \<times> nat \<Rightarrow> LayoutToken" where
  "marker_token assetMap m =
     (case m of (match, assetId, offset) \<Rightarrow>
        (case assetMap assetId of Some asset \<Rightarrow> AssetToken asset | None \<Rightarrow> TextToken match))"

section \<open>Geometry\<close>

definition area :: "Rect \<Rightarrow> real" where
  "area r = rect_width r * rect_height r"

definition clamp :: "real \<Rightarrow> real \<Rightarrow> real \<Rightarrow> real" where
  "clamp v lo hi = min (max v lo) hi"

record CharacterOptions =
  opt_scale :: real
  opt_offsetX :: real
  opt_offsetY :: real
  opt_margin :: real

text \<open>\<^verbatim>\<open>computeCharacterRect\<close> reads only the natural size of the image.\<close>

definition computeCharacterRect :: "real \<Rightarrow> real \<Rightarrow> nat \<times> nat \<Rightarrow> CharacterOptions \<Rightarrow> Rect" where
  "computeCharacterRect canvasWidth canvasHeight img options =
     (let maxWidth = canvasWidth * 0.9;
          w = min maxWidth (canvasWidth * opt_scale options);
          ratio = (if snd img = 0 then 1 else real (fst img) / real (snd img));
          h = w / (if ratio = 0 then 1 else ratio);
          baseX = canvasWidth - w - opt_margin options;
          baseY = canvasHeight - h - opt_margin options
      in \<lparr>rect_x = clamp (baseX + opt_offsetX options) (- w * 0.25) (canvasWidth - w * 0.75),
          rect_y = clamp (baseY + opt_offsetY options) (- h * 0.1) (canvasHeight - h * 0.1),
          rect_width = w, rect_height = h\<rparr>)"

text \<open>
  \<^verbatim>\<open>candidates.sort((a, b) => b.width * b.height - a.width * a.height)\<close> sorts by
  descending area. \<^verbatim>\<open>Array.prototype.sort\<close> is stable, and so is \<open>sort_key\<close>:
  candidates of equal area keep their order.
\<close>

definition computeSafeRect :: "real \<Rightarrow> real \<Rightarrow> Rect option \<Rightarrow> real \<Rightarrow> real \<Rightarrow> Rect" where
  "computeSafeRect canvasWidth canvasHeight characterRect outerPadding safePadding =
     (let x = outerPadding;
          y = outerPadding;
          w = max (canvasWidth - outerPadding * 2) 10;
          h = max (canvasHeight - outerPadding * 2) 10
      in case characterRect of
           None \<Rightarrow> \<lparr>rect_x = x, rect_y = y, rect_width = w, rect_height = h\<rparr>
         | Some cr \<Rightarrow>
            (let leftWidth = max (rect_x cr - safePadding - x) 0;
                 leftRect = \<lparr>rect_x = x, rect_y = y, rect_width = leftWidth, rect_height = h\<rparr>;
                 topHeight = max (rect_y cr - safePadding - y) 0;
                 topRect = \<lparr>rect_x = x, rect_y = y, rect_width = w, rect_height = topHeight\<rparr>;
                 rightX = rect_x cr + rect_width cr + safePadding;
                 rightWidth = max (x + w - rightX) 0;
                 rightRect = \<lparr>rect_x = rightX, rect_y = y, rect_width = rightWidth, rect_height = h\<rparr>;
                 candidates = filter (\<lambda>r. rect_width r > 20 \<and> rect_height r > 20)
                                [leftRect, topRect, rightRect]
             in if candidates = [] then \<lparr>rect_x = x, rect_y = y, rect_width = w, rect_height = h\<rparr>
                else hd (sort_key (\<lambda>r. - area r) candidates)))"

section \<open>Layout engine: data\<close>

record LayoutConfig =
  cfg_width :: real
  cfg_height :: real
  cfg_fontSize :: real
  cfg_minFontSize :: real
  cfg_fontFamily :: string
  cfg_lineHeight :: real
  cfg_maxColumns :: int
  cfg_columnGap :: real
  cfg_textColor :: string
  cfg_strokeColor :: string
  cfg_strokeWidth :: real

datatype run_kind = RunText | RunAsset

text \<open>The fields of \<^verbatim>\<open>TextMetrics\<close> that the engine reads. A bounding-box field an
  engine does not supply is \<open>None\<close>.\<close>

record TextMetrics =
  tm_width :: real
  actualBoundingBoxAscent :: "real option"
  actualBoundingBoxDescent :: "real option"
  fontBoundingBoxAscent :: "real option"
  fontBoundingBoxDescent :: "real option"

text \<open>The measuring canvas context: its \<^verbatim>\<open>font\<close> property, set to
  \<^verbatim>\<open>`${fontSize}px ${fontFamily}`\<close>. The measurement provider is a parameter
  \<open>measureText\<close> of the engine: it maps the context and a character to metrics.
  Creating the context needs a 2D canvas; its absence is an environment failure raised
  before any layout work and is not part of the model.\<close>

record MeasureContext =
  font_px :: real
  font_family :: string

type_synonym provider = "MeasureContext \<Rightarrow> string \<Rightarrow> TextMetrics"

definition createMeasureContext :: "string \<Rightarrow> real \<Rightarrow> MeasureContext" where
  "createMeasureContext fontFamily fontSize = \<lparr>font_px = fontSize, font_family = fontFamily\<rparr>"

record RunBuffer =
  run_type :: run_kind
  run_value :: string
  run_asset :: "InlineAsset option"
  run_width :: real
  run_height :: real
  run_ascent :: real
  run_descent :: real
  run_metrics :: "TextMetrics option"

record LineBuffer =
  line_runs :: "RunBuffer list"
  line_width :: real
  line_ascent :: real
  line_descent :: real
  line_height :: real

record Placement =
  p_type :: run_kind
  p_value :: string
  p_asset :: "InlineAsset option"
  p_x :: real
  p_y :: real
  p_width :: real
  p_height :: real
  p_baseline :: real
  p_lineHeight :: real
  p_column :: nat

record LayoutAttempt =
  att_success :: bool
  att_placements :: "Placement list"
  att_overflow :: bool
  att_warnings :: "warning list"
  att_columnHeights :: "real list"

record FontSizeResult =
  fs_success :: bool
  fs_placements :: "Placement list"
  fs_fontSize :: real
  fs_warnings :: "warning list"
  fs_columnHeights :: "real list"

record LayoutResult =
  lr_success :: bool
  lr_placements :: "Placement list"
  lr_fontSize :: real
  lr_columns :: nat
  lr_columnHeights :: "real list"
  lr_warnings :: "warning list"

text \<open>The mutable state of the line packer: the closed lines, the line being filled,
  and the number of calls made to the measurement provider so far.\<close>

record PackState =
  ps_lines :: "LineBuffer list"
  ps_currentLine :: "LineBuffer"
  ps_measureCalls :: nat

section \<open>Layout engine: line packer\<close>

text \<open>\<^verbatim>\<open>a || b\<close> on an optional number: \<open>a\<close> unless it is missing or zero.\<close>

definition or_else :: "real option \<Rightarrow> real \<Rightarrow> real" where
  "or_else a b = (case a of None \<Rightarrow> b | Some v \<Rightarrow> if v = 0 then b else v)"

definition createLineBuffer :: "real \<Rightarrow> real \<Rightarrow> LineBuffer" where
  "createLineBuffer fontSize lineHeightRatio =
     \<lparr>line_runs = [], line_width = 0, line_ascent = fontSize * 0.8,
      line_descent = fontSize * 0.2, line_height = fontSize * lineHeightRatio\<rparr>"

text \<open>The ascent and descent \<^verbatim>\<open>pushTextSegment\<close> gives a character.\<close>

definition textAscent :: "TextMetrics \<Rightarrow> real \<Rightarrow> real" where
  "textAscent metrics fontSize =
     or_else (actualBoundingBoxAscent metrics)
       (or_else (fontBoundingBoxAscent metrics) (fontSize * 0.82))"

definition textDescent :: "TextMetrics \<Rightarrow> real \<Rightarrow> real" where
  "textDescent metrics fontSize =
     or_else (actualBoundingBoxDescent metrics)
       (or_else (fontBoundingBoxDescent metrics) (fontSize * 0.18))"

text \<open>The wrap test shared by both push functions: close the line when the run does
  not fit and the line already has a run.\<close>

definition wrapLine :: "real \<Rightarrow> real \<Rightarrow> real \<Rightarrow> real \<Rightarrow> PackState \<Rightarrow> PackState" where
  "wrapLine w columnWidth fontSize lineHeightRatio st =
     (if line_width (ps_currentLine st) + w > columnWidth \<and> line_runs (ps_currentLine st) \<noteq> []
      then st\<lparr>ps_lines := ps_lines st @ [ps_currentLine st],
              ps_currentLine := createLineBuffer fontSize lineHeightRatio\<rparr>
      else st)"

text \<open>Appending a character run to a line, with the line's metrics recomputed.\<close>

definition addTextRun :: "LineBuffer \<Rightarrow> string \<Rightarrow> TextMetrics \<Rightarrow> real \<Rightarrow> LineBuffer" where
  "addTextRun cur ch metrics fontSize =
     (let ascent = textAscent metrics fontSize;
          descent = textDescent metrics fontSize;
          run = \<lparr>run_type = RunText, run_value = ch, run_asset = None,
                 run_width = tm_width metrics, run_height = line_height cur,
                 run_ascent = ascent, run_descent = descent, run_metrics = Some metrics\<rparr>;
          ascent1 = max (line_ascent cur) ascent;
          descent1 = max (line_descent cur) descent
      in \<lparr>line_runs = line_runs cur @ [run],
          line_width = line_width cur + tm_width metrics,
          line_ascent = ascent1,
          line_descent = descent1,
          line_height = max (line_height cur) (ascent1 + descent1)\<rparr>)"

text \<open>The body of the loop of \<^verbatim>\<open>pushTextSegment\<close>, for one character.\<close>

definition pushTextChar ::
  "provider \<Rightarrow> MeasureContext \<Rightarrow> real \<Rightarrow> real \<Rightarrow> real \<Rightarrow> PackState \<Rightarrow> char \<Rightarrow> PackState" where
  "pushTextChar measureText ctx columnWidth fontSize lineHeightRatio st c =
     (let metrics = measureText ctx [c];
          st1 = wrapLine (tm_width metrics) columnWidth fontSize lineHeightRatio st
      in st1\<lparr>ps_currentLine := addTextRun (ps_currentLine st1) [c] metrics fontSize,
              ps_measureCalls := ps_measureCalls st1 + 1\<rparr>)"

definition pushTextSegment ::
  "provider \<Rightarrow> MeasureContext \<Rightarrow> real \<Rightarrow> real \<Rightarrow> real \<Rightarrow> string \<Rightarrow> PackState \<Rightarrow> PackState" where
  "pushTextSegment measureText ctx columnWidth fontSize lineHeightRatio segment st =
     foldl (pushTextChar measureText ctx columnWidth fontSize lineHeightRatio) st segment"

text \<open>
  The size \<^verbatim>\<open>pushAssetToken\<close> gives an asset. \<^verbatim>\<open>naturalWidth / naturalHeight || 1\<close>
  is 1 when the quotient is 0 or NaN (zero width). With zero height and a positive
  width the quotient is infinite: for a positive target height the width is then cut
  to the column and the scale factor is 0, which is the value written here (for a
  target height of 0 or below JavaScript leaves the finite numbers).
\<close>

definition assetSize :: "InlineAsset \<Rightarrow> real \<Rightarrow> real \<Rightarrow> real \<times> real" where
  "assetSize asset columnWidth fontSize =
     (let targetHeight = fontSize * 1.05
      in if naturalHeight asset = 0 \<and> naturalWidth asset \<noteq> 0 then (columnWidth, 0)
         else
           (let ratio = (if naturalWidth asset = 0 then 1
                         else real (naturalWidth asset) / real (naturalHeight asset));
                w = targetHeight * ratio
            in if w > columnWidth then (columnWidth, targetHeight * (columnWidth / w))
               else (w, targetHeight)))"

definition addAssetRun :: "LineBuffer \<Rightarrow> InlineAsset \<Rightarrow> real \<Rightarrow> real \<Rightarrow> LineBuffer" where
  "addAssetRun cur asset w h =
     (let run = \<lparr>run_type = RunAsset, run_value = asset_id asset, run_asset = Some asset,
                 run_width = w, run_height = h, run_ascent = h, run_descent = 0,
                 run_metrics = None\<rparr>;
          height1 = max (line_height cur) h;
          ascent1 = max (line_ascent cur) h;
          descent1 = max (line_descent cur) 0
      in \<lparr>line_runs = line_runs cur @ [run],
          line_width = line_width cur + w,
          line_ascent = ascent1,
          line_descent = descent1,
          line_height = max height1 (ascent1 + descent1)\<rparr>)"

definition pushAssetToken :: "InlineAsset \<Rightarrow> real \<Rightarrow> real \<Rightarrow> real \<Rightarrow> PackState \<Rightarrow> PackState" where
  "pushAssetToken asset columnWidth fontSize lineHeightRatio st =
     (case assetSize asset columnWidth fontSize of (w, h) \<Rightarrow>
        (let st1 = wrapLine w columnWidth fontSize lineHeightRatio st
         in st1\<lparr>ps_currentLine := addAssetRun (ps_currentLine st1) asset w h\<rparr>))"

text \<open>\<^verbatim>\<open>value.split('\n')\<close>: the pieces between newlines, at least one.\<close>

fun splitNewline :: "string \<Rightarrow> string list" where
  "splitNewline [] = [[]]"
| "splitNewline (c # cs) =
     (if c = CHR 0x0A then [] # splitNewline cs
      else (case splitNewline cs of
              [] \<Rightarrow> [[c]]
            | seg # segs \<Rightarrow> (c # seg) # segs))"

text \<open>\<^verbatim>\<open>segments.forEach\<close> in \<^verbatim>\<open>layoutWithConfig\<close>: push each non-empty segment and
  close the line after every segment but the last.\<close>

fun pushSegments ::
  "provider \<Rightarrow> MeasureContext \<Rightarrow> real \<Rightarrow> real \<Rightarrow> real \<Rightarrow> string list \<Rightarrow> PackState \<Rightarrow> PackState" where
  "pushSegments measureText ctx columnWidth fontSize lineHeightRatio [] st = st"
| "pushSegments measureText ctx columnWidth fontSize lineHeightRatio (segment # rest) st =
     (let st1 = (if segment \<noteq> []
                 then pushTextSegment measureText ctx columnWidth fontSize lineHeightRatio segment st
                 else st)
      in if rest \<noteq> []
         then pushSegments measureText ctx columnWidth fontSize lineHeightRatio rest
                (st1\<lparr>ps_lines := ps_lines st1 @ [ps_currentLine st1],
                     ps_currentLine := createLineBuffer fontSize lineHeightRatio\<rparr>)
         else st1)"

definition pushToken ::
  "provider \<Rightarrow> MeasureContext \<Rightarrow> real \<Rightarrow> real \<Rightarrow> real \<Rightarrow> PackState \<Rightarrow> LayoutToken \<Rightarrow> PackState" where
  "pushToken measureText ctx columnWidth fontSize lineHeightRatio st token =
     (case token of
        TextToken v \<Rightarrow>
          pushSegments measureText ctx columnWidth fontSize lineHeightRatio (splitNewline v) st
      | AssetToken asset \<Rightarrow> pushAssetToken asset columnWidth fontSize lineHeightRatio st)"

text \<open>The first half of \<^verbatim>\<open>layoutWithConfig\<close>: all tokens packed into lines.\<close>

definition buildLines ::
  "provider \<Rightarrow> MeasureContext \<Rightarrow> real \<Rightarrow> real \<Rightarrow> real \<Rightarrow> LayoutToken list \<Rightarrow> PackState" where
  "buildLines measureText ctx columnWidth fontSize lineHeightRatio tokens =
     (let st = foldl (pushToken measureText ctx columnWidth fontSize lineHeightRatio)
                 \<lparr>ps_lines = [], ps_currentLine = createLineBuffer fontSize lineHeightRatio,
                  ps_measureCalls = 0\<rparr> tokens
      in if line_runs (ps_currentLine st) \<noteq> [] \<or> ps_lines st = []
         then st\<lparr>ps_lines := ps_lines st @ [ps_currentLine st]\<rparr>
         else st)"

text \<open>
  The metrics a line is expected to carry: ascent and descent are the maxima of the
  starting values of \<^verbatim>\<open>createLineBuffer\<close> and of the runs' values, and the height is
  the base height for a line without runs and the larger of the base height and ascent
  plus descent otherwise.
\<close>

definition lineMetricsOk :: "real \<Rightarrow> real \<Rightarrow> LineBuffer \<Rightarrow> bool" where
  "lineMetricsOk fontSize lineHeightRatio l \<longleftrightarrow>
     line_ascent l = Max (insert (fontSize * 0.8) (run_ascent ` set (line_runs l)))
     \<and> line_descent l = Max (insert (fontSize * 0.2) (run_descent ` set (line_runs l)))
     \<and> line_height l =
         (if line_runs l = [] then fontSize * lineHeightRatio
          else max (fontSize * lineHeightRatio) (line_ascent l + line_descent l))"

definition packOk :: "real \<Rightarrow> real \<Rightarrow> PackState \<Rightarrow> bool" where
  "packOk fontSize lineHeightRatio st \<longleftrightarrow>
     list_all (lineMetricsOk fontSize lineHeightRatio) (ps_lines st)
     \<and> lineMetricsOk fontSize lineHeightRatio (ps_currentLine st)"

section \<open>Layout engine: columns\<close>

fun placeRuns ::
  "real \<Rightarrow> real \<Rightarrow> real \<Rightarrow> LineBuffer \<Rightarrow> nat \<Rightarrow> real \<Rightarrow> RunBuffer list \<Rightarrow> Placement list" where
  "placeRuns left topY baseline line columnIndex cursorX [] = []"
| "placeRuns left topY baseline line columnIndex cursorX (run # runs) =
     \<lparr>p_type = run_type run, p_value = run_value run, p_asset = run_asset run,
      p_x = left + cursorX, p_y = topY,
      p_width = run_width run,
      p_height = (if run_type run = RunAsset then run_height run else line_height line),
      p_baseline = baseline, p_lineHeight = line_height line, p_column = columnIndex\<rparr>
     # placeRuns left topY baseline line columnIndex (cursorX + run_width run) runs"

definition placeLine :: "Rect \<Rightarrow> real \<Rightarrow> real \<Rightarrow> nat \<Rightarrow> real \<Rightarrow> LineBuffer \<Rightarrow> Placement list" where
  "placeLine safeRect columnWidth columnGap columnIndex cursorY line =
     (let left = rect_x safeRect + real columnIndex * (columnWidth + columnGap);
          baseline = cursorY + line_ascent line
                     + max 0 ((line_height line - (line_ascent line + line_descent line)) / 2)
      in placeRuns left (rect_y safeRect + cursorY) (rect_y safeRect + baseline) line
           columnIndex 0 (line_runs line))"

text \<open>
  The loop over the lines in \<^verbatim>\<open>layoutWithConfig\<close>, with its variables
  \<^verbatim>\<open>placements\<close>, \<^verbatim>\<open>columnHeights\<close>, \<^verbatim>\<open>columnIndex\<close> and \<^verbatim>\<open>cursorY\<close> as arguments.
  \<^verbatim>\<open>columnIndex\<close> stays below \<^verbatim>\<open>columns\<close> at every write, so the writes are in range.
\<close>

fun placeLines ::
  "Rect \<Rightarrow> real \<Rightarrow> real \<Rightarrow> nat \<Rightarrow> LineBuffer list \<Rightarrow> Placement list \<Rightarrow> real list \<Rightarrow> nat \<Rightarrow> real
     \<Rightarrow> LayoutAttempt" where
  "placeLines safeRect columnWidth columnGap columns [] placements columnHeights columnIndex cursorY =
     \<lparr>att_success = True, att_placements = placements, att_overflow = False,
      att_warnings = [], att_columnHeights = columnHeights[columnIndex := cursorY]\<rparr>"
| "placeLines safeRect columnWidth columnGap columns (line # rest) placements columnHeights
     columnIndex cursorY =
     (if cursorY + line_height line > rect_height safeRect + 0.5 then
        (if columnIndex + 1 \<ge> columns then
           \<lparr>att_success = False, att_placements = [], att_overflow = True,
            att_warnings = [ColumnOverflow],
            att_columnHeights = columnHeights[columnIndex := cursorY]\<rparr>
         else
           placeLines safeRect columnWidth columnGap columns rest
             (placements @ placeLine safeRect columnWidth columnGap (columnIndex + 1) 0 line)
             (columnHeights[columnIndex := cursorY]) (columnIndex + 1) (0 + line_height line))
      else
        placeLines safeRect columnWidth columnGap columns rest
          (placements @ placeLine safeRect columnWidth columnGap columnIndex cursorY line)
          columnHeights columnIndex (cursorY + line_height line))"

definition columnWidthOf :: "Rect \<Rightarrow> LayoutConfig \<Rightarrow> nat \<Rightarrow> real" where
  "columnWidthOf safeRect config columns =
     (rect_width safeRect - cfg_columnGap config * (real columns - 1)) / real columns"

text \<open>\<^verbatim>\<open>layoutWithConfig\<close> returns the attempt together with the number of calls it made
  to the measurement provider.\<close>

definition layoutWithConfig ::
  "provider \<Rightarrow> LayoutToken list \<Rightarrow> Rect \<Rightarrow> real \<Rightarrow> nat \<Rightarrow> LayoutConfig \<Rightarrow> MeasureContext
     \<Rightarrow> LayoutAttempt \<times> nat" where
  "layoutWithConfig measureText tokens safeRect fontSize columns config measureContext =
     (let columnGap = cfg_columnGap config;
          columnWidth = columnWidthOf safeRect config columns
      in if columnWidth \<le> 20 then
           (\<lparr>att_success = False, att_placements = [], att_overflow = True,
             att_warnings = [ColumnTooNarrow], att_columnHeights = replicate columns 0\<rparr>, 0)
         else
           (let st = buildLines measureText measureContext columnWidth fontSize
                       (cfg_lineHeight config) tokens
            in (placeLines safeRect columnWidth columnGap columns (ps_lines st) []
                  (replicate columns 0) 0 0,
                ps_measureCalls st)))"

section \<open>Layout engine: search\<close>

text \<open>
  The loop of \<^verbatim>\<open>findFontSizeForColumns\<close>, with the loop variable \<^verbatim>\<open>fontSize\<close>, the
  warnings collected so far and the calls to the provider so far as arguments. Over the
  reals the loop ends: each round lowers \<^verbatim>\<open>fontSize\<close> by 2.
\<close>

function fontSizeLoop ::
  "provider \<Rightarrow> LayoutToken list \<Rightarrow> Rect \<Rightarrow> LayoutConfig \<Rightarrow> nat \<Rightarrow> MeasureContext \<Rightarrow> real
     \<Rightarrow> warning list \<Rightarrow> nat \<Rightarrow> FontSizeResult \<times> nat" where
  "fontSizeLoop measureText tokens safeRect config columns reusableContext fontSize warns calls =
     (if fontSize \<ge> cfg_minFontSize config then
        (case layoutWithConfig measureText tokens safeRect fontSize columns config
                (reusableContext\<lparr>font_px := fontSize, font_family := cfg_fontFamily config\<rparr>) of
           (attempt, n) \<Rightarrow>
             if att_success attempt then
               (\<lparr>fs_success = True, fs_placements = att_placements attempt,
                 fs_fontSize = fontSize, fs_warnings = warns @ att_warnings attempt,
                 fs_columnHeights = att_columnHeights attempt\<rparr>, calls + n)
             else
               fontSizeLoop measureText tokens safeRect config columns reusableContext
                 (fontSize - 2) (warns @ att_warnings attempt) (calls + n))
      else
        (\<lparr>fs_success = False, fs_placements = [], fs_fontSize = cfg_minFontSize config,
          fs_warnings = warns, fs_columnHeights = []\<rparr>, calls))"
  by pat_completeness auto
termination
  by (relation "measure (\<lambda>(m, t, r, config, c, x, fontSize, w, n).
                   nat \<lceil>fontSize - cfg_minFontSize config + 1\<rceil>)")
    (auto, linarith)

declare fontSizeLoop.simps [simp del]

definition findFontSizeForColumns ::
  "provider \<Rightarrow> LayoutToken list \<Rightarrow> Rect \<Rightarrow> LayoutConfig \<Rightarrow> nat \<Rightarrow> MeasureContext
     \<Rightarrow> FontSizeResult \<times> nat" where
  "findFontSizeForColumns measureText tokens safeRect config columns reusableContext =
     fontSizeLoop measureText tokens safeRect config columns reusableContext
       (cfg_fontSize config) [] 0"

text \<open>The loop of \<^verbatim>\<open>autoLayout\<close> over the column candidates, with the warnings and
  the provider calls collected so far.\<close>

fun columnLoop ::
  "provider \<Rightarrow> LayoutToken list \<Rightarrow> Rect \<Rightarrow> LayoutConfig \<Rightarrow> MeasureContext \<Rightarrow> nat list
     \<Rightarrow> warning list \<Rightarrow> nat \<Rightarrow> LayoutResult \<times> nat" where
  "columnLoop measureText tokens safeRect config measureContext [] warns calls =
     (\<lparr>lr_success = False, lr_placements = [], lr_fontSize = cfg_minFontSize config, lr_columns = 1,
       lr_columnHeights = [],
       lr_warnings = (if warns \<noteq> [] then warns else [ContentTooLarge])\<rparr>, calls)"
| "columnLoop measureText tokens safeRect config measureContext (cols # rest) warns calls =
     (case findFontSizeForColumns measureText tokens safeRect config cols measureContext of
        (attempt, n) \<Rightarrow>
          if fs_success attempt then
            (\<lparr>lr_success = True, lr_placements = fs_placements attempt,
              lr_fontSize = fs_fontSize attempt, lr_columns = cols,
              lr_columnHeights = fs_columnHeights attempt,
              lr_warnings = warns @ fs_warnings attempt\<rparr>, calls + n)
          else
            columnLoop measureText tokens safeRect config measureContext rest
              (warns @ fs_warnings attempt) (calls + n))"

text \<open>\<^verbatim>\<open>Array.from({ length: maxColumns }, (_, idx) => idx + 1)\<close>, or \<^verbatim>\<open>[1]\<close>.\<close>

definition columnCandidates :: "LayoutConfig \<Rightarrow> bool \<Rightarrow> nat list" where
  "columnCandidates config autoColumns =
     (let maxColumns = (if autoColumns then max 1 (cfg_maxColumns config) else 1)
      in if autoColumns then map (\<lambda>idx. idx + 1) [0..<nat maxColumns] else [1])"

text \<open>\<^verbatim>\<open>autoLayout\<close> returns the result together with the number of calls made to the
  measurement provider.\<close>

definition autoLayout ::
  "provider \<Rightarrow> LayoutToken list \<Rightarrow> LayoutConfig \<Rightarrow> Rect \<Rightarrow> bool \<Rightarrow> LayoutResult \<times> nat" where
  "autoLayout measureText tokens config safeRect autoColumns =
     (if rect_width safeRect \<le> 0 \<or> rect_height safeRect \<le> 0 then
        (\<lparr>lr_success = False, lr_placements = [], lr_fontSize = cfg_minFontSize config, lr_columns = 1,
          lr_columnHeights = [], lr_warnings = [InvalidSafeRect]\<rparr>, 0)
      else
        columnLoop measureText tokens safeRect config
          (createMeasureContext (cfg_fontFamily config) (cfg_fontSize config))
          (columnCandidates config autoColumns) [] 0)"

text \<open>The search order in the words of the specification: column counts from 1 up to
  the maximum, and for each the font sizes from the starting size down to the minimum
  in steps of 2.\<close>

definition stepCount :: "real \<Rightarrow> real \<Rightarrow> nat" where
  "stepCount start lo = (if start \<ge> lo then nat \<lfloor>(start - lo) / 2\<rfloor> + 1 else 0)"

definition sizesFrom :: "real \<Rightarrow> real \<Rightarrow> real list" where
  "sizesFrom start lo = map (\<lambda>k. start - 2 * real k) [0..<stepCount start lo]"

definition fontSizes :: "LayoutConfig \<Rightarrow> real list" where
  "fontSizes config = sizesFrom (cfg_fontSize config) (cfg_minFontSize config)"

definition maxColumnsOf :: "LayoutConfig \<Rightarrow> bool \<Rightarrow> nat" where
  "maxColumnsOf config autoColumns = (if autoColumns then nat (max 1 (cfg_maxColumns config)) else 1)"

definition searchOrder :: "LayoutConfig \<Rightarrow> bool \<Rightarrow> (nat \<times> real) list" where
  "searchOrder config autoColumns =
     List.product [1..<maxColumnsOf config autoColumns + 1] (fontSizes config)"

text \<open>The attempt the search makes at a combination (column count, font size): the
  context's font is set to the size first. A combination is feasible when the attempt
  succeeds.\<close>

definition attemptAt ::
  "provider \<Rightarrow> LayoutToken list \<Rightarrow> Rect \<Rightarrow> LayoutConfig \<Rightarrow> nat \<times> real \<Rightarrow> LayoutAttempt \<times> nat" where
  "attemptAt measureText tokens safeRect config cf =
     layoutWithConfig measureText tokens safeRect (snd cf) (fst cf) config
       \<lparr>font_px = snd cf, font_family = cfg_fontFamily config\<rparr>"

definition feasible ::
  "provider \<Rightarrow> LayoutToken list \<Rightarrow> Rect \<Rightarrow> LayoutConfig \<Rightarrow> nat \<times> real \<Rightarrow> bool" where
  "feasible measureText tokens safeRect config cf =
     att_success (fst (attemptAt measureText tokens safeRect config cf))"

section \<open>Post-processing\<close>

definition alignLayout :: "LayoutResult \<Rightarrow> Rect \<Rightarrow> Rect option \<Rightarrow> LayoutResult" where
  "alignLayout layout safeRect characterRect =
     (if \<not> lr_success layout \<or> lr_columnHeights layout = [] then layout
      else
        (let maxHeight = Max (set (lr_columnHeights layout))
         in if maxHeight \<le> 0 then layout
            else
              (let safeTop = rect_y safeRect;
                   safeBottom = rect_y safeRect + rect_height safeRect;
                   targetTopRaw = (case characterRect of Some cr \<Rightarrow> rect_y cr | None \<Rightarrow> safeTop);
                   targetTop = min (max targetTopRaw safeTop) safeBottom;
                   desiredOffset = max 0 (targetTop - safeTop);
                   maxOffset = max 0 (rect_height safeRect - maxHeight);
                   appliedOffset = min desiredOffset maxOffset
               in if appliedOffset \<le> 0 then layout
                  else layout\<lparr>lr_placements :=
                         map (\<lambda>p. p\<lparr>p_y := p_y p + appliedOffset,
                                     p_baseline := p_baseline p + appliedOffset\<rparr>)
                           (lr_placements layout)\<rparr>)))"

text \<open>
  The bounding box of \<^verbatim>\<open>applyTextOffset\<close> starts at
  \<^verbatim>\<open>Number.POSITIVE_INFINITY\<close> and \<^verbatim>\<open>Number.NEGATIVE_INFINITY\<close>. A bound is \<open>None\<close>
  while it still has its infinite starting value; no comparison with a finite number
  is then true in the direction the code tests.
\<close>

definition minInf :: "real option \<Rightarrow> real \<Rightarrow> real option" where
  "minInf m v = (case m of None \<Rightarrow> Some v | Some u \<Rightarrow> Some (min u v))"

definition maxInf :: "real option \<Rightarrow> real \<Rightarrow> real option" where
  "maxInf m v = (case m of None \<Rightarrow> Some v | Some u \<Rightarrow> Some (max u v))"

definition belowBound :: "real option \<Rightarrow> real \<Rightarrow> bool" where
  "belowBound m b = (case m of None \<Rightarrow> False | Some u \<Rightarrow> u < b)"

definition aboveBound :: "real option \<Rightarrow> real \<Rightarrow> bool" where
  "aboveBound m b = (case m of None \<Rightarrow> False | Some u \<Rightarrow> u > b)"

record BBox =
  minX :: "real option"
  maxX :: "real option"
  minY :: "real option"
  maxY :: "real option"

definition growBBox :: "real \<Rightarrow> real \<Rightarrow> BBox \<Rightarrow> Placement \<Rightarrow> BBox" where
  "growBBox offsetX offsetY b p =
     \<lparr>minX = minInf (minX b) (p_x p + offsetX),
      maxX = maxInf (maxX b) (p_x p + offsetX + p_width p),
      minY = minInf (minY b) (p_y p + offsetY),
      maxY = maxInf (maxY b) (p_y p + offsetY + p_height p)\<rparr>"

definition leavesSafeRect :: "BBox \<Rightarrow> Rect \<Rightarrow> bool" where
  "leavesSafeRect b safeRect =
     (belowBound (minX b) (rect_x safeRect)
      \<or> aboveBound (maxX b) (rect_x safeRect + rect_width safeRect)
      \<or> belowBound (minY b) (rect_y safeRect)
      \<or> aboveBound (maxY b) (rect_y safeRect + rect_height safeRect))"

definition offsetBBox :: "LayoutResult \<Rightarrow> real \<Rightarrow> real \<Rightarrow> BBox" where
  "offsetBBox layout offsetX offsetY =
     foldl (growBBox offsetX offsetY) \<lparr>minX = None, maxX = None, minY = None, maxY = None\<rparr>
       (lr_placements layout)"

definition applyTextOffset :: "LayoutResult \<Rightarrow> real \<Rightarrow> real \<Rightarrow> Rect \<Rightarrow> LayoutResult" where
  "applyTextOffset layout offsetX offsetY safeRect =
     (if \<not> lr_success layout then layout
      else if offsetX = 0 \<and> offsetY = 0 then layout
      else
        (let placements1 = map (\<lambda>p. p\<lparr>p_x := p_x p + offsetX, p_y := p_y p + offsetY,
                                       p_baseline := p_baseline p + offsetY\<rparr>)
                             (lr_placements layout);
             warnings1 = (if leavesSafeRect (offsetBBox layout offsetX offsetY) safeRect
                            \<and> OutsideSafeRect \<notin> set (lr_warnings layout)
                          then lr_warnings layout @ [OutsideSafeRect]
                          else lr_warnings layout)
         in layout\<lparr>lr_placements := placements1, lr_warnings := warnings1\<rparr>))"

record SceneOptions =
  so_outerPadding :: real
  so_safePadding :: real
  so_autoColumns :: bool
  so_textOffsetX :: real
  so_textOffsetY :: real

record SceneComputation =
  sc_safeRect :: Rect
  sc_characterRect :: "Rect option"
  sc_layout :: LayoutResult
  sc_warnings :: "warning list"

text \<open>\<^verbatim>\<open>computeScene\<close>; the character image is given by its natural size, if present.\<close>

definition computeScene ::
  "provider \<Rightarrow> real \<Rightarrow> real \<Rightarrow> (nat \<times> nat) option \<Rightarrow> CharacterOptions \<Rightarrow> string
     \<Rightarrow> InlineAsset list \<Rightarrow> LayoutConfig \<Rightarrow> SceneOptions \<Rightarrow> SceneComputation" where
  "computeScene measureText canvasWidth canvasHeight characterImage characterOptions text_in
     inlineAssets layoutConfig options =
     (let characterRect = map_option
            (\<lambda>img. computeCharacterRect canvasWidth canvasHeight img characterOptions)
            characterImage;
          safeRect = computeSafeRect canvasWidth canvasHeight characterRect
                       (so_outerPadding options) (so_safePadding options);
          tokens = tokenizeText text_in inlineAssets;
          rawLayout = fst (autoLayout measureText tokens layoutConfig safeRect
                             (so_autoColumns options));
          alignedLayout = alignLayout rawLayout safeRect characterRect;
          offsetLayout = applyTextOffset alignedLayout (so_textOffsetX options)
                           (so_textOffsetY options) safeRect
      in \<lparr>sc_safeRect = safeRect, sc_characterRect = characterRect,
          sc_layout = offsetLayout, sc_warnings = lr_warnings offsetLayout\<rparr>)"

section \<open>Sample inputs\<close>

text \<open>A provider for worked examples: every character is half the font size wide and
  carries no bounding-box metrics.\<close>

definition fixedProvider :: provider where
  "fixedProvider ctx s =
     \<lparr>tm_width = font_px ctx / 2, actualBoundingBoxAscent = None,
      actualBoundingBoxDescent = None, fontBoundingBoxAscent = None,
      fontBoundingBoxDescent = None\<rparr>"

definition sampleConfig :: "real \<Rightarrow> real \<Rightarrow> int \<Rightarrow> LayoutConfig" where
  "sampleConfig start lo maxCols =
     \<lparr>cfg_width = 1000, cfg_height = 1000, cfg_fontSize = start, cfg_minFontSize = lo,
      cfg_fontFamily = ''serif'', cfg_lineHeight = 1.2, cfg_maxColumns = maxCols,
      cfg_columnGap = 0, cfg_textColor = ''#407fbf'', cfg_strokeColor = ''#ffffff'',
      cfg_strokeWidth = 3\<rparr>"

definition sampleRect :: "real \<Rightarrow> real \<Rightarrow> Rect" where
  "sampleRect w h = \<lparr>rect_x = 0, rect_y = 0, rect_width = w, rect_height = h\<rparr>"

text \<open>A provider whose characters carry small actual bounding boxes: ascent 10 and
  descent 5 at every font size.\<close>

definition lowProvider :: provider where
  "lowProvider ctx s =
     \<lparr>tm_width = font_px ctx / 2, actualBoundingBoxAscent = Some 10,
      actualBoundingBoxDescent = Some 5, fontBoundingBoxAscent = None,
      fontBoundingBoxDescent = None\<rparr>"

definition emptyPack :: "real \<Rightarrow> real \<Rightarrow> PackState" where
  "emptyPack fontSize lineHeightRatio =
     \<lparr>ps_lines = [], ps_currentLine = createLineBuffer fontSize lineHeightRatio,
      ps_measureCalls = 0\<rparr>"

section \<open>Tokenizer: proofs\<close>

lemma match_at_decomp:
  assumes "match_at s = Some (ident, rest)"
  shows "s = marker ident @ rest" and "ident \<noteq> []" and "CHR '']'' \<notin> set ident"
proof -
  let ?body = "drop 8 s"
  let ?P = "\<lambda>c. c \<noteq> CHR '']''"
  from assms have pre: "take 8 s = ''[[asset:''"
    by (auto simp: match_at_def Let_def split: if_splits)
  from assms have id: "ident = takeWhile ?P ?body"
    and ne: "ident \<noteq> []"
    and suf: "take 2 (dropWhile ?P ?body) = '']]''"
    and rest: "rest = drop 2 (dropWhile ?P ?body)"
    by (auto simp: match_at_def Let_def split: if_splits)
  have "s = take 8 s @ ?body" by simp
  also have "?body = takeWhile ?P ?body @ dropWhile ?P ?body" by simp
  also have "dropWhile ?P ?body = take 2 (dropWhile ?P ?body) @ drop 2 (dropWhile ?P ?body)"
    by simp
  finally have "s = ''[[asset:'' @ ident @ '']]'' @ rest"
    using pre id suf rest by simp
  then show "s = marker ident @ rest" by (simp add: marker_def)
  show "ident \<noteq> []" by (rule ne)
  show "CHR '']'' \<notin> set ident"
    using id by (auto dest: set_takeWhileD)
qed

lemma match_at_shorter: "match_at s = Some (ident, rest) \<Longrightarrow> length rest < length s"
  by (drule match_at_decomp(1)) (simp add: marker_def)

lemma assetMapOf_fold_id:
  "(\<And>k a. m k = Some a \<Longrightarrow> asset_id a = k) \<Longrightarrow>
   foldl (\<lambda>m a. m(asset_id a \<mapsto> a)) m assets k = Some a \<Longrightarrow> asset_id a = k"
proof (induction assets arbitrary: m)
  case Nil
  then show ?case by simp
next
  case (Cons b bs)
  show ?case
  proof (rule Cons.IH [of "m(asset_id b \<mapsto> b)"])
    fix k' a'
    assume "(m(asset_id b \<mapsto> b)) k' = Some a'"
    then show "asset_id a' = k'"
      using Cons.prems(1) by (auto split: if_splits)
  next
    show "foldl (\<lambda>m a. m(asset_id a \<mapsto> a)) (m(asset_id b \<mapsto> b)) bs k = Some a"
      using Cons.prems(2) by (simp del: fun_upd_apply)
  qed
qed

lemma assetMapOf_id: "assetMapOf assets k = Some a \<Longrightarrow> asset_id a = k"
  unfolding assetMapOf_def by (rule assetMapOf_fold_id [of Map.empty]) auto

lemma assetMapOf_fold_mem:
  "(\<And>k a. m k = Some a \<Longrightarrow> a \<in> S \<union> set assets) \<Longrightarrow>
   foldl (\<lambda>m a. m(asset_id a \<mapsto> a)) m assets k = Some a \<Longrightarrow> a \<in> S \<union> set assets"
proof (induction assets arbitrary: m S)
  case Nil
  then show ?case by simp
next
  case (Cons b bs)
  have "a \<in> (insert b S) \<union> set bs"
  proof (rule Cons.IH [of "m(asset_id b \<mapsto> b)"])
    fix k' a'
    assume "(m(asset_id b \<mapsto> b)) k' = Some a'"
    then show "a' \<in> insert b S \<union> set bs"
      using Cons.prems(1) [of k' a'] by (auto split: if_splits)
  next
    show "foldl (\<lambda>m a. m(asset_id a \<mapsto> a)) (m(asset_id b \<mapsto> b)) bs k = Some a"
      using Cons.prems(2) by (simp del: fun_upd_apply)
  qed
  then show ?case by auto
qed

lemma assetMapOf_mem: "assetMapOf assets k = Some a \<Longrightarrow> a \<in> set assets"
  unfolding assetMapOf_def using assetMapOf_fold_mem [of Map.empty "{}" assets k a] by auto

lemma assetMapOf_fold_dom:
  "dom (foldl (\<lambda>m a. m(asset_id a \<mapsto> a)) m assets) = dom m \<union> asset_id ` set assets"
  by (induction assets arbitrary: m) (auto simp del: fun_upd_apply)

lemma assetMapOf_None_iff: "assetMapOf assets k = None \<longleftrightarrow> k \<notin> asset_id ` set assets"
proof -
  have "dom (assetMapOf assets) = asset_id ` set assets"
    using assetMapOf_fold_dom [of Map.empty assets] by (simp add: assetMapOf_def)
  then show ?thesis by (metis domIff)
qed

lemma render_all_append [simp]: "render_all (xs @ ys) = render_all xs @ render_all ys"
  by (simp add: render_all_def)

lemma render_all_single [simp]: "render_all [t] = render t"
  by (simp add: render_all_def)

lemma render_all_Nil [simp]: "render_all [] = []"
  by (simp add: render_all_def)

lemma render_marker_token:
  assumes "\<And>k a. assetMap k = Some a \<Longrightarrow> asset_id a = k"
  shows "render (marker_token assetMap (marker ident, ident, off)) = marker ident"
  using assms by (auto simp: marker_token_def split: option.splits)

lemma replace_callback_results:
  "results (replace_callback input assetMap st m) =
     results st
     @ (if lastIndex st < snd (snd m) \<and> slice input (lastIndex st) (snd (snd m)) \<noteq> []
        then [TextToken (slice input (lastIndex st) (snd (snd m)))] else [])
     @ [marker_token assetMap m]"
  by (cases m) (auto simp: replace_callback_def marker_token_def Let_def split: option.splits)

lemma replace_callback_lastIndex:
  "lastIndex (replace_callback input assetMap st (m, ident, off)) = off + length m"
  by (simp add: replace_callback_def Let_def)

lemma replace_callback_inv:
  assumes inp: "input = pre @ m @ rest"
    and li: "lastIndex st \<le> length pre"
    and inv: "render_all (results st) = take (lastIndex st) input"
    and rm: "render (marker_token assetMap (m, ident, length pre)) = m"
  shows "render_all (results (replace_callback input assetMap st (m, ident, length pre))) = pre @ m"
proof -
  let ?li = "lastIndex st"
  have sl: "slice input ?li (length pre) = drop ?li pre"
    using li by (simp add: slice_def inp)
  have tk: "take ?li input = take ?li pre"
    using li by (simp add: inp)
  have "take ?li pre @ drop ?li pre = pre" by simp
  then show ?thesis
    using li by (auto simp: replace_callback_results sl inv tk rm)
qed

lemma tokenize_fold_inv:
  assumes "input = pre @ s" and "length pre = off" and "lastIndex st \<le> off"
    and "render_all (results st) = take (lastIndex st) input"
    and "\<And>k a. assetMap k = Some a \<Longrightarrow> asset_id a = k"
  shows "lastIndex (foldl (replace_callback input assetMap) st (regex_matches off s)) \<le> length input
       \<and> render_all (results (foldl (replace_callback input assetMap) st (regex_matches off s)))
           = take (lastIndex (foldl (replace_callback input assetMap) st (regex_matches off s))) input"
  using assms
proof (induction off s arbitrary: pre st rule: regex_matches.induct)
  case (1 off s)
  show ?case
  proof (cases "s = []")
    case True
    with "1.prems" show ?thesis by (simp add: regex_matches.simps)
  next
    case False
    show ?thesis
    proof (cases "match_at s")
      case None
      have "input = (pre @ [hd s]) @ tl s" using False "1.prems"(1) by simp
      moreover have "length (pre @ [hd s]) = off + 1" using "1.prems"(2) by simp
      moreover have "lastIndex st \<le> off + 1" using "1.prems"(3) by simp
      ultimately have "lastIndex (foldl (replace_callback input assetMap) st (regex_matches (off + 1) (tl s))) \<le> length input
       \<and> render_all (results (foldl (replace_callback input assetMap) st (regex_matches (off + 1) (tl s))))
           = take (lastIndex (foldl (replace_callback input assetMap) st (regex_matches (off + 1) (tl s)))) input"
        using "1.IH"(1) [OF False None, of "pre @ [hd s]" st] "1.prems"(4,5) by blast
      then show ?thesis
        using False None by (simp add: regex_matches.simps [of off s])
    next
      case (Some p)
      obtain ident rest where p: "p = (ident, rest)" by (cases p)
      let ?m = "marker ident"
      let ?st = "replace_callback input assetMap st (?m, ident, off)"
      from Some p have s: "s = ?m @ rest" by (auto dest: match_at_decomp(1))
      have inp: "input = pre @ ?m @ rest" using "1.prems"(1) s by simp
      have r: "render_all (results ?st) = pre @ ?m"
        using replace_callback_inv [OF inp _ "1.prems"(4), of assetMap ident]
          "1.prems"(2,3) render_marker_token [OF "1.prems"(5)] by simp
      have l: "lastIndex ?st = off + length ?m" by (rule replace_callback_lastIndex)
      have "input = (pre @ ?m) @ rest" using inp by simp
      moreover have "length (pre @ ?m) = off + length ?m" using "1.prems"(2) by simp
      moreover have "lastIndex ?st \<le> off + length ?m" using l by simp
      moreover have "render_all (results ?st) = take (lastIndex ?st) input"
        using r l inp "1.prems"(2) by simp
      ultimately have "lastIndex (foldl (replace_callback input assetMap) ?st (regex_matches (off + length ?m) rest)) \<le> length input
       \<and> render_all (results (foldl (replace_callback input assetMap) ?st (regex_matches (off + length ?m) rest)))
           = take (lastIndex (foldl (replace_callback input assetMap) ?st (regex_matches (off + length ?m) rest))) input"
        using "1.IH"(2) [OF False Some p [symmetric], of "pre @ ?m" ?st] "1.prems"(5) by blast
      then show ?thesis
        using False Some p by (simp add: regex_matches.simps [of off s])
    qed
  qed
qed

lemma fold_results_mono:
  "set (results st) \<subseteq> set (results (foldl (replace_callback input assetMap) st ms))"
  by (induction ms arbitrary: st) (force simp: replace_callback_results)+

lemma fold_results_markers:
  "mm \<in> set ms \<Longrightarrow> marker_token assetMap mm \<in> set (results (foldl (replace_callback input assetMap) st ms))"
proof (induction ms arbitrary: st)
  case Nil
  then show ?case by simp
next
  case (Cons a ms)
  show ?case
  proof (cases "mm = a")
    case True
    have "marker_token assetMap a \<in> set (results (replace_callback input assetMap st a))"
      by (simp add: replace_callback_results)
    then show ?thesis
      using True fold_results_mono [of "replace_callback input assetMap st a" input assetMap ms] by auto
  next
    case False
    then show ?thesis using Cons by auto
  qed
qed

lemma fold_results_assets:
  assumes "\<And>k a. assetMap k = Some a \<Longrightarrow> a \<in> A"
    and "\<And>a. AssetToken a \<in> set (results st) \<Longrightarrow> a \<in> A"
    and "AssetToken a \<in> set (results (foldl (replace_callback input assetMap) st ms))"
  shows "a \<in> A"
  using assms(2,3)
proof (induction ms arbitrary: st)
  case Nil
  then show ?case by simp
next
  case (Cons m ms)
  show ?case
  proof (rule Cons.IH [of "replace_callback input assetMap st m"])
    fix b assume "AssetToken b \<in> set (results (replace_callback input assetMap st m))"
    then show "b \<in> A"
      using Cons.prems(1) assms(1)
      by (cases m) (auto simp: replace_callback_results marker_token_def split: option.splits if_splits)
  next
    show "AssetToken a \<in> set (results (foldl (replace_callback input assetMap) (replace_callback input assetMap st m) ms))"
      using Cons.prems(2) by simp
  qed
qed

lemma tokenizeText_render: "render_all (tokenizeText input assets) = input"
proof -
  let ?st = "foldl (replace_callback input (assetMapOf assets)) \<lparr>results = [], lastIndex = 0\<rparr> (regex_matches 0 input)"
  have inv: "lastIndex ?st \<le> length input \<and> render_all (results ?st) = take (lastIndex ?st) input"
    by (rule tokenize_fold_inv [of input "[]"]) (auto dest: assetMapOf_id)
  then show ?thesis
    by (auto simp: tokenizeText_def Let_def)
qed

lemma tokenizeText_markers:
  assumes "(m, ident, off) \<in> set (regex_matches 0 input)"
  shows "marker_token (assetMapOf assets) (m, ident, off) \<in> set (tokenizeText input assets)"
proof -
  let ?st = "foldl (replace_callback input (assetMapOf assets)) \<lparr>results = [], lastIndex = 0\<rparr> (regex_matches 0 input)"
  have "marker_token (assetMapOf assets) (m, ident, off) \<in> set (results ?st)"
    using assms by (rule fold_results_markers)
  then show ?thesis
    by (auto simp: tokenizeText_def Let_def)
qed

lemma tokenizeText_assets:
  assumes "AssetToken a \<in> set (tokenizeText input assets)"
  shows "a \<in> set assets"
proof -
  let ?st = "foldl (replace_callback input (assetMapOf assets)) \<lparr>results = [], lastIndex = 0\<rparr> (regex_matches 0 input)"
  from assms have "AssetToken a \<in> set (results ?st)"
    by (auto simp: tokenizeText_def Let_def split: if_splits)
  then show ?thesis
    using fold_results_assets [of "assetMapOf assets" "set assets" "\<lparr>results = [], lastIndex = 0\<rparr>" a input "regex_matches 0 input"]
    by (auto dest: assetMapOf_mem)
qed

lemma tokenizeText_no_markers:
  "regex_matches 0 input = [] \<Longrightarrow> tokenizeText input assets = [TextToken input]"
  by (simp add: tokenizeText_def Let_def)


lemma tokenizeText_marker_cases:
  assumes "(m, ident, off) \<in> set (regex_matches 0 input)"
  shows "case assetMapOf assets ident of
           Some asset \<Rightarrow> AssetToken asset \<in> set (tokenizeText input assets)
         | None \<Rightarrow> TextToken m \<in> set (tokenizeText input assets)"
  using tokenizeText_markers [OF assms, of assets]
  by (cases "assetMapOf assets ident") (simp_all add: marker_token_def)

lemma tokenizeText_unknown:
  assumes "(m, ident, off) \<in> set (regex_matches 0 input)" and "ident \<notin> asset_id ` set assets"
  shows "TextToken m \<in> set (tokenizeText input assets)"
proof -
  have "assetMapOf assets ident = None"
    using assms(2) by (simp add: assetMapOf_None_iff)
  then show ?thesis
    using tokenizeText_marker_cases [OF assms(1), of assets] by simp
qed

lemma tokenizeText_empty: "tokenizeText [] assets = [TextToken []]"
  by (rule tokenizeText_no_markers) (simp add: regex_matches.simps)

text \<open>
  Claim C3. For every input string and asset list: rendering every token of
  \<open>tokenizeText\<close> back (a text token as its content, an asset token as the marker of
  its asset) and concatenating gives the input again; every marker the scan finds
  appears in the result, as the asset token of the registered asset or, when no
  registered asset has the identifier, as a text token holding the marker literally;
  every asset token is a registered asset; an input without markers gives exactly one
  text token holding the input, and the empty input gives one empty text token.
\<close>

theorem tokenizeText_roundtrip:
  "render_all (tokenizeText input assets) = input
   \<and> (\<forall>(m, ident, off) \<in> set (regex_matches 0 input).
        (case assetMapOf assets ident of
           Some asset \<Rightarrow> AssetToken asset \<in> set (tokenizeText input assets)
         | None \<Rightarrow> TextToken m \<in> set (tokenizeText input assets)))
   \<and> (\<forall>(m, ident, off) \<in> set (regex_matches 0 input).
        ident \<notin> asset_id ` set assets \<longrightarrow> TextToken m \<in> set (tokenizeText input assets))
   \<and> (\<forall>a. AssetToken a \<in> set (tokenizeText input assets) \<longrightarrow> a \<in> set assets)
   \<and> (regex_matches 0 input = [] \<longrightarrow> tokenizeText input assets = [TextToken input])
   \<and> tokenizeText [] assets = [TextToken []]"
proof (intro conjI)
  show "render_all (tokenizeText input assets) = input"
    by (rule tokenizeText_render)
  show "\<forall>(m, ident, off) \<in> set (regex_matches 0 input).
        (case assetMapOf assets ident of
           Some asset \<Rightarrow> AssetToken asset \<in> set (tokenizeText input assets)
         | None \<Rightarrow> TextToken m \<in> set (tokenizeText input assets))"
    using tokenizeText_marker_cases by blast
  show "\<forall>(m, ident, off) \<in> set (regex_matches 0 input).
        ident \<notin> asset_id ` set assets \<longrightarrow> TextToken m \<in> set (tokenizeText input assets)"
    using tokenizeText_unknown by blast
  show "\<forall>a. AssetToken a \<in> set (tokenizeText input assets) \<longrightarrow> a \<in> set assets"
    using tokenizeText_assets by blast
  show "regex_matches 0 input = [] \<longrightarrow> tokenizeText input assets = [TextToken input]"
    using tokenizeText_no_markers by blast
  show "tokenizeText [] assets = [TextToken []]"
    by (rule tokenizeText_empty)
qed


theorem tokenizeText_roundtrip_witness:
  "(''[[asset:missing]]'', ''missing'', 3) \<in> set (regex_matches 0 ''abc[[asset:missing]]def'')
   \<and> ''missing'' \<notin> asset_id ` set []
   \<and> TextToken ''[[asset:missing]]'' \<in> set (tokenizeText ''abc[[asset:missing]]def'' [])
   \<and> render_all (tokenizeText ''abc[[asset:missing]]def'' []) = ''abc[[asset:missing]]def''
   \<and> regex_matches 0 ''abc'' = []
   \<and> tokenizeText ''abc'' [] = [TextToken ''abc'']"
proof -
  have r: "regex_matches 0 ''abc[[asset:missing]]def'' = [(''[[asset:missing]]'', ''missing'', 3)]"
    by code_simp
  have n: "regex_matches 0 ''abc'' = []"
    by code_simp
  note w = tokenizeText_roundtrip [of "''abc[[asset:missing]]def''" "[]"]
  have 1: "(''[[asset:missing]]'', ''missing'', 3) \<in> set (regex_matches 0 ''abc[[asset:missing]]def'')"
    by (simp add: r)
  have 2: "''missing'' \<notin> asset_id ` set []" by simp
  have 3: "TextToken ''[[asset:missing]]'' \<in> set (tokenizeText ''abc[[asset:missing]]def'' [])"
    using w [THEN conjunct2, THEN conjunct2, THEN conjunct1] 1 2 by fast
  have 4: "render_all (tokenizeText ''abc[[asset:missing]]def'' []) = ''abc[[asset:missing]]def''"
    by (rule w [THEN conjunct1])
  have 5: "tokenizeText ''abc'' [] = [TextToken ''abc'']"
    using tokenizeText_roundtrip [of "''abc''" "[]", THEN conjunct2, THEN conjunct2,
        THEN conjunct2, THEN conjunct2, THEN conjunct1] n
    by (rule mp)
  from 1 2 3 4 n 5 show ?thesis by (intro conjI)
qed

section \<open>Layout search: the loops in closed form\<close>

lemma stepCount_step: "lo \<le> start \<Longrightarrow> stepCount start lo = Suc (stepCount (start - 2) lo)"
proof -
  assume a: "lo \<le> start"
  show ?thesis
  proof (cases "lo \<le> start - 2")
    case True
    have e: "(start - lo) / 2 = (start - 2 - lo) / 2 + 1" by (simp add: field_simps)
    have "\<lfloor>(start - lo) / 2\<rfloor> = \<lfloor>(start - 2 - lo) / 2\<rfloor> + 1" unfolding e by simp
    moreover have "0 \<le> \<lfloor>(start - 2 - lo) / 2\<rfloor>" using True by simp
    ultimately show ?thesis using a True by (simp add: stepCount_def nat_add_distrib)
  next
    case False
    then have "\<lfloor>(start - lo) / 2\<rfloor> = 0" using a by (simp add: floor_eq_iff)
    then show ?thesis using a False by (simp add: stepCount_def)
  qed
qed

lemma sizesFrom_step: "lo \<le> start \<Longrightarrow> sizesFrom start lo = start # sizesFrom (start - 2) lo"
proof -
  assume a: "lo \<le> start"
  have "sizesFrom start lo = map (\<lambda>k. start - 2 * real k) [0..<Suc (stepCount (start - 2) lo)]"
    unfolding sizesFrom_def stepCount_step [OF a] ..
  also have "\<dots> = (start - 2 * real 0) # map (\<lambda>k. start - 2 * real (Suc k)) [0..<stepCount (start - 2) lo]"
    by (rule map_upt_Suc)
  also have "\<dots> = start # sizesFrom (start - 2) lo"
    by (simp add: sizesFrom_def algebra_simps)
  finally show ?thesis .
qed
lemma sizesFrom_empty: "\<not> lo \<le> start \<Longrightarrow> sizesFrom start lo = []"
  by (simp add: sizesFrom_def stepCount_def)

lemma stepCount_pos: "lo \<le> start \<Longrightarrow> 0 < stepCount start lo"
  by (simp add: stepCount_def)

lemma ctx_overwrite:
  "ctx\<lparr>font_px := f, font_family := fam\<rparr> = \<lparr>font_px = f, font_family = fam\<rparr>"
  by (cases ctx) simp

lemma fontSizeLoop_step:
  "fontSizeLoop M tokens safeRect config c ctx f warns calls =
     (if cfg_minFontSize config \<le> f then
        (if feasible M tokens safeRect config (c, f) then
           (\<lparr>fs_success = True,
             fs_placements = att_placements (fst (attemptAt M tokens safeRect config (c, f))),
             fs_fontSize = f,
             fs_warnings = warns @ att_warnings (fst (attemptAt M tokens safeRect config (c, f))),
             fs_columnHeights = att_columnHeights (fst (attemptAt M tokens safeRect config (c, f)))\<rparr>,
            calls + snd (attemptAt M tokens safeRect config (c, f)))
         else fontSizeLoop M tokens safeRect config c ctx (f - 2)
                (warns @ att_warnings (fst (attemptAt M tokens safeRect config (c, f))))
                (calls + snd (attemptAt M tokens safeRect config (c, f))))
      else (\<lparr>fs_success = False, fs_placements = [], fs_fontSize = cfg_minFontSize config,
              fs_warnings = warns, fs_columnHeights = []\<rparr>, calls))"
  by (subst fontSizeLoop.simps)
    (simp add: attemptAt_def feasible_def ctx_overwrite split: prod.splits)


lemma fontSizeLoop_fst:
  fixes M tokens safeRect config c
  defines "lo \<equiv> cfg_minFontSize config"
    and "feas \<equiv> \<lambda>g. feasible M tokens safeRect config (c, g)"
    and "att \<equiv> \<lambda>g. fst (attemptAt M tokens safeRect config (c, g))"
  shows "fst (fontSizeLoop M tokens safeRect config c ctx f warns calls) =
     (case find feas (sizesFrom f lo) of
        None \<Rightarrow>
          \<lparr>fs_success = False, fs_placements = [], fs_fontSize = lo,
           fs_warnings = warns @ concat (map (\<lambda>g. att_warnings (att g)) (sizesFrom f lo)),
           fs_columnHeights = []\<rparr>
      | Some g \<Rightarrow>
          \<lparr>fs_success = True, fs_placements = att_placements (att g), fs_fontSize = g,
           fs_warnings = warns
             @ concat (map (\<lambda>g. att_warnings (att g)) (takeWhile (\<lambda>g. \<not> feas g) (sizesFrom f lo)))
             @ att_warnings (att g),
           fs_columnHeights = att_columnHeights (att g)\<rparr>)"
proof (induction "stepCount f lo" arbitrary: f warns calls)
  case 0
  then have "\<not> lo \<le> f" using stepCount_pos [of lo f] by auto
  then show ?case
    by (subst fontSizeLoop_step) (simp add: sizesFrom_empty lo_def)
next
  case (Suc n)
  then have le: "lo \<le> f" by (auto simp: stepCount_def split: if_splits)
  have n: "n = stepCount (f - 2) lo" using Suc.hyps(2) stepCount_step [OF le] by simp
  show ?case
  proof (cases "feas f")
    case True
    then show ?thesis using le
      by (subst fontSizeLoop_step) (simp add: sizesFrom_step lo_def feas_def att_def)
  next
    case False
    have "fst (fontSizeLoop M tokens safeRect config c ctx f warns calls)
        = fst (fontSizeLoop M tokens safeRect config c ctx (f - 2)
                (warns @ att_warnings (att f))
                (calls + snd (attemptAt M tokens safeRect config (c, f))))"
      using le False by (subst fontSizeLoop_step) (simp add: lo_def feas_def att_def)
    also note Suc.hyps(1) [OF n]
    finally show ?thesis
      using le False by (simp add: sizesFrom_step [of lo f] split: option.splits)
  qed
qed

lemma find_append_cases:
  "find P (xs @ ys) = (case find P xs of None \<Rightarrow> find P ys | Some x \<Rightarrow> Some x)"
  by (induction xs) auto

lemma find_map_Pair:
  "find P (map (Pair c) ys) = map_option (Pair c) (find (\<lambda>g. P (c, g)) ys)"
  by (induction ys) auto

lemma takeWhile_map_Pair:
  "takeWhile P (map (Pair c) ys) = map (Pair c) (takeWhile (\<lambda>g. P (c, g)) ys)"
  by (induction ys) auto

lemma takeWhile_append_find_None:
  "find P xs = None \<Longrightarrow> takeWhile (\<lambda>x. \<not> P x) (xs @ ys) = xs @ takeWhile (\<lambda>x. \<not> P x) ys"
  by (induction xs) (auto split: if_splits)

lemma takeWhile_append_find_Some:
  "find P xs = Some x \<Longrightarrow> takeWhile (\<lambda>x. \<not> P x) (xs @ ys) = takeWhile (\<lambda>x. \<not> P x) xs"
  by (induction xs) (auto split: if_splits)

lemma takeWhile_find_None:
  "find P xs = None \<Longrightarrow> takeWhile (\<lambda>x. \<not> P x) xs = xs"
  by (induction xs) (auto split: if_splits)

lemma findFontSizeForColumns_fst:
  fixes M tokens safeRect config c
  defines "feas \<equiv> feasible M tokens safeRect config"
    and "aw \<equiv> \<lambda>cf. att_warnings (fst (attemptAt M tokens safeRect config cf))"
    and "row \<equiv> map (Pair c) (fontSizes config)"
  shows "fst (findFontSizeForColumns M tokens safeRect config c ctx) =
     (case find feas row of
        None \<Rightarrow>
          \<lparr>fs_success = False, fs_placements = [], fs_fontSize = cfg_minFontSize config,
           fs_warnings = concat (map aw row), fs_columnHeights = []\<rparr>
      | Some cf \<Rightarrow>
          \<lparr>fs_success = True,
           fs_placements = att_placements (fst (attemptAt M tokens safeRect config cf)),
           fs_fontSize = snd cf,
           fs_warnings = concat (map aw (takeWhile (\<lambda>cf. \<not> feas cf) row)) @ aw cf,
           fs_columnHeights = att_columnHeights (fst (attemptAt M tokens safeRect config cf))\<rparr>)"
  unfolding findFontSizeForColumns_def fontSizeLoop_fst feas_def aw_def row_def fontSizes_def
  by (simp add: find_map_Pair takeWhile_map_Pair comp_def split: option.splits)

lemma columnLoop_Cons:
  "columnLoop M tokens safeRect config ctx (c # rest) warns calls =
     (if fs_success (fst (findFontSizeForColumns M tokens safeRect config c ctx)) then
        (\<lparr>lr_success = True,
          lr_placements = fs_placements (fst (findFontSizeForColumns M tokens safeRect config c ctx)),
          lr_fontSize = fs_fontSize (fst (findFontSizeForColumns M tokens safeRect config c ctx)),
          lr_columns = c,
          lr_columnHeights = fs_columnHeights (fst (findFontSizeForColumns M tokens safeRect config c ctx)),
          lr_warnings = warns @ fs_warnings (fst (findFontSizeForColumns M tokens safeRect config c ctx))\<rparr>,
         calls + snd (findFontSizeForColumns M tokens safeRect config c ctx))
      else columnLoop M tokens safeRect config ctx rest
             (warns @ fs_warnings (fst (findFontSizeForColumns M tokens safeRect config c ctx)))
             (calls + snd (findFontSizeForColumns M tokens safeRect config c ctx)))"
  by (simp split: prod.splits)

lemma columnLoop_fst:
  fixes M tokens safeRect config
  defines "feas \<equiv> feasible M tokens safeRect config"
    and "aw \<equiv> \<lambda>cf. att_warnings (fst (attemptAt M tokens safeRect config cf))"
  shows "fst (columnLoop M tokens safeRect config ctx cands warns calls) =
     (case find feas (List.product cands (fontSizes config)) of
        None \<Rightarrow>
          \<lparr>lr_success = False, lr_placements = [], lr_fontSize = cfg_minFontSize config,
           lr_columns = 1, lr_columnHeights = [],
           lr_warnings =
             (if warns @ concat (map aw (List.product cands (fontSizes config))) \<noteq> []
              then warns @ concat (map aw (List.product cands (fontSizes config)))
              else [ContentTooLarge])\<rparr>
      | Some cf \<Rightarrow>
          \<lparr>lr_success = True,
           lr_placements = att_placements (fst (attemptAt M tokens safeRect config cf)),
           lr_fontSize = snd cf, lr_columns = fst cf,
           lr_columnHeights = att_columnHeights (fst (attemptAt M tokens safeRect config cf)),
           lr_warnings = warns
             @ concat (map aw (takeWhile (\<lambda>cf. \<not> feas cf) (List.product cands (fontSizes config))))
             @ aw cf\<rparr>)"
proof (induction cands arbitrary: warns calls)
  case Nil
  then show ?case by simp
next
  case (Cons c cands)
  let ?row = "map (Pair c) (fontSizes config)"
  let ?F = "findFontSizeForColumns M tokens safeRect config c ctx"
  note F = findFontSizeForColumns_fst [of M tokens safeRect config c ctx, folded feas_def aw_def]
  show ?case
  proof (cases "find feas ?row")
    case None
    then have nf: "\<not> fs_success (fst ?F)" and w: "fs_warnings (fst ?F) = concat (map aw ?row)"
      using F by simp_all
    have "fst (columnLoop M tokens safeRect config ctx (c # cands) warns calls)
        = fst (columnLoop M tokens safeRect config ctx cands (warns @ concat (map aw ?row))
                 (calls + snd ?F))"
      using nf w by (simp only: columnLoop_Cons if_False)
    also note Cons.IH
    finally show ?thesis
      using None
      by (simp add: find_append_cases takeWhile_append_find_None split: option.splits)
  next
    case (Some cf)
    then have s: "fs_success (fst ?F)"
      and w: "fs_warnings (fst ?F) = concat (map aw (takeWhile (\<lambda>cf. \<not> feas cf) ?row)) @ aw cf"
      and p: "fs_placements (fst ?F) = att_placements (fst (attemptAt M tokens safeRect config cf))"
      and h: "fs_columnHeights (fst ?F) = att_columnHeights (fst (attemptAt M tokens safeRect config cf))"
      and f: "fs_fontSize (fst ?F) = snd cf"
      using F by (simp_all add: aw_def)
    have c: "fst cf = c" using Some by (auto simp: find_map_Pair)
    show ?thesis
      using s w p h f c Some
      by (simp add: columnLoop_Cons find_append_cases takeWhile_append_find_Some
            del: columnLoop.simps)
  qed
qed

lemma columnCandidates_eq:
  "columnCandidates config autoColumns = [1..<maxColumnsOf config autoColumns + 1]"
proof (cases autoColumns)
  case True
  have "map (\<lambda>idx. idx + 1) [0..<n] = [1..<n + 1]" for n :: nat
    using map_Suc_upt [of 0 n] by (simp del: upt_Suc)
  then show ?thesis using True
    by (simp add: columnCandidates_def maxColumnsOf_def Let_def del: upt_Suc)
next
  case False
  then show ?thesis by (simp add: columnCandidates_def maxColumnsOf_def)
qed

lemma autoLayout_fst:
  fixes M tokens safeRect config autoColumns
  defines "feas \<equiv> feasible M tokens safeRect config"
    and "aw \<equiv> \<lambda>cf. att_warnings (fst (attemptAt M tokens safeRect config cf))"
    and "order \<equiv> searchOrder config autoColumns"
  assumes valid: "0 < rect_width safeRect" "0 < rect_height safeRect"
  shows "fst (autoLayout M tokens config safeRect autoColumns) =
     (case find feas order of
        None \<Rightarrow>
          \<lparr>lr_success = False, lr_placements = [], lr_fontSize = cfg_minFontSize config,
           lr_columns = 1, lr_columnHeights = [],
           lr_warnings = (if concat (map aw order) \<noteq> [] then concat (map aw order)
                          else [ContentTooLarge])\<rparr>
      | Some cf \<Rightarrow>
          \<lparr>lr_success = True,
           lr_placements = att_placements (fst (attemptAt M tokens safeRect config cf)),
           lr_fontSize = snd cf, lr_columns = fst cf,
           lr_columnHeights = att_columnHeights (fst (attemptAt M tokens safeRect config cf)),
           lr_warnings = concat (map aw (takeWhile (\<lambda>cf. \<not> feas cf) order)) @ aw cf\<rparr>)"
proof -
  have "fst (autoLayout M tokens config safeRect autoColumns) =
      fst (columnLoop M tokens safeRect config
            (createMeasureContext (cfg_fontFamily config) (cfg_fontSize config))
            [1..<maxColumnsOf config autoColumns + 1] [] 0)"
    using valid by (simp add: autoLayout_def columnCandidates_eq del: upt_Suc)
  then show ?thesis
    unfolding feas_def aw_def order_def searchOrder_def
    by (simp only: columnLoop_fst [where warns = "[]", unfolded append_Nil])
qed

lemma placeLines_warnings:
  "att_warnings (placeLines safeRect cw gap cols ls ps chs ci cy) =
     (if att_success (placeLines safeRect cw gap cols ls ps chs ci cy) then [] else [ColumnOverflow])"
  by (induction ls arbitrary: ps chs ci cy) auto

lemma attemptAt_warnings:
  "att_warnings (fst (attemptAt M tokens safeRect config cf)) =
     (if feasible M tokens safeRect config cf then []
      else if columnWidthOf safeRect config (fst cf) \<le> 20 then [ColumnTooNarrow]
      else [ColumnOverflow])"
  by (simp add: feasible_def attemptAt_def layoutWithConfig_def Let_def placeLines_warnings)

lemma find_Some_props:
  "find P xs = Some x \<Longrightarrow> P x \<and> x \<in> set xs"
  by (induction xs) (auto split: if_splits)

lemma find_Some_first:
  "find P xs = Some x \<Longrightarrow> \<exists>i < length xs. xs ! i = x \<and> (\<forall>j < i. \<not> P (xs ! j))"
  by (auto simp: find_Some_iff)

lemma sizesFrom_set: "set (sizesFrom start lo) = {f. \<exists>k::nat. f = start - 2 * real k \<and> lo \<le> f}"
proof -
  have k_iff: "k < stepCount start lo \<longleftrightarrow> lo \<le> start - 2 * real k" for k
  proof (cases "lo \<le> start")
    case True
    have z: "0 \<le> \<lfloor>(start - lo) / 2\<rfloor>" using True by simp
    have "k < stepCount start lo \<longleftrightarrow> k \<le> nat \<lfloor>(start - lo) / 2\<rfloor>"
      using True by (simp add: stepCount_def less_Suc_eq_le)
    also have "\<dots> \<longleftrightarrow> int k \<le> \<lfloor>(start - lo) / 2\<rfloor>"
      using z by (rule le_nat_iff)
    also have "\<dots> \<longleftrightarrow> real k \<le> (start - lo) / 2"
      by (simp add: le_floor_iff)
    also have "\<dots> \<longleftrightarrow> lo \<le> start - 2 * real k" by (simp add: field_simps)
    finally show ?thesis .
  next
    case False
    have "start - 2 * real k \<le> start" by simp
    then show ?thesis using False by (simp add: stepCount_def)
  qed
  show ?thesis
  proof (intro set_eqI iffI)
    fix f assume "f \<in> set (sizesFrom start lo)"
    then obtain k where "k < stepCount start lo" and "f = start - 2 * real k"
      by (auto simp: sizesFrom_def)
    then show "f \<in> {f. \<exists>k::nat. f = start - 2 * real k \<and> lo \<le> f}"
      using k_iff [of k] by blast
  next
    fix f assume "f \<in> {f. \<exists>k::nat. f = start - 2 * real k \<and> lo \<le> f}"
    then obtain k :: nat where "f = start - 2 * real k" and "lo \<le> f" by blast
    then have "k < stepCount start lo" using k_iff [of k] by simp
    then show "f \<in> set (sizesFrom start lo)"
      using \<open>f = start - 2 * real k\<close> by (simp add: sizesFrom_def)
  qed
qed

lemma find_product:
  "find P (List.product xs ys) =
     (case find (\<lambda>x. \<exists>y \<in> set ys. P (x, y)) xs of
        None \<Rightarrow> None
      | Some c \<Rightarrow> map_option (Pair c) (find (\<lambda>y. P (c, y)) ys))"
proof (induction xs)
  case Nil
  then show ?case by simp
next
  case (Cons x xs)
  show ?case
  proof (cases "\<exists>y \<in> set ys. P (x, y)")
    case True
    then obtain y where "find (\<lambda>y. P (x, y)) ys = Some y"
      by (cases "find (\<lambda>y. P (x, y)) ys") (auto simp: find_None_iff)
    then show ?thesis using True
      by (simp add: find_append_cases find_map_Pair)
  next
    case False
    then have "find (\<lambda>y. P (x, y)) ys = None" by (simp add: find_None_iff)
    then show ?thesis using False Cons.IH
      by (simp add: find_append_cases find_map_Pair)
  qed
qed

lemma find_product_first:
  assumes "find P (List.product [1..<n + 1] (sizesFrom start lo)) = Some (c, f)"
  shows "P (c, f)" and "1 \<le> c" and "c \<le> n" and "lo \<le> f"
    and "\<exists>k::nat. f = start - 2 * real k \<and> (\<forall>j<k. \<not> P (c, start - 2 * real j))"
    and "\<forall>c' k. 1 \<le> c' \<and> c' < c \<and> lo \<le> start - 2 * real k \<longrightarrow> \<not> P (c', start - 2 * real k)"
proof -
  let ?xs = "[1..<n + 1]" and ?ys = "sizesFrom start lo"
  from assms obtain c0 where c0: "find (\<lambda>x. \<exists>y \<in> set ?ys. P (x, y)) ?xs = Some c0"
    and f0: "map_option (Pair c0) (find (\<lambda>y. P (c0, y)) ?ys) = Some (c, f)"
    by (auto simp: find_product split: option.splits)
  from f0 have cc: "c0 = c" and ff: "find (\<lambda>y. P (c, y)) ?ys = Some f" by auto
  from ff obtain k where k: "k < length ?ys" "P (c, ?ys ! k)" "f = ?ys ! k"
    "\<forall>j<k. \<not> P (c, ?ys ! j)"
    unfolding find_Some_iff by blast
  have nth: "?ys ! j = start - 2 * real j" if "j < length ?ys" for j
    using that by (simp add: sizesFrom_def)
  from c0 cc obtain i where i: "i < length ?xs" "c = ?xs ! i"
    "\<forall>j<i. \<not> (\<exists>y \<in> set ?ys. P (?xs ! j, y))"
    unfolding find_Some_iff by blast
  have ci: "c = 1 + i" using i(1,2) by (simp del: upt_Suc)
  show "P (c, f)" using k(2,3) by simp
  show "1 \<le> c" using ci by simp
  show "c \<le> n" using ci i(1) by (simp del: upt_Suc)
  have "f \<in> set ?ys" using k(1,3) by simp
  then show "lo \<le> f" by (simp add: sizesFrom_set)
  have "f = start - 2 * real k" using k(1,3) nth by simp
  moreover have "\<forall>j<k. \<not> P (c, start - 2 * real j)"
    using k(1,4) nth by (metis less_trans)
  ultimately show "\<exists>k::nat. f = start - 2 * real k \<and> (\<forall>j<k. \<not> P (c, start - 2 * real j))"
    by blast
  show "\<forall>c' k. 1 \<le> c' \<and> c' < c \<and> lo \<le> start - 2 * real k \<longrightarrow> \<not> P (c', start - 2 * real k)"
  proof (intro allI impI)
    fix c' :: nat and k' :: nat
    assume a: "1 \<le> c' \<and> c' < c \<and> lo \<le> start - 2 * real k'"
    then have j: "c' - 1 < i" using ci by linarith
    have "?xs ! (c' - 1) = c'" using a j i(1) by (simp del: upt_Suc)
    then have "\<not> (\<exists>y \<in> set ?ys. P (c', y))" using i(3) j by metis
    moreover have "start - 2 * real k' \<in> set ?ys" using a by (auto simp: sizesFrom_set)
    ultimately show "\<not> P (c', start - 2 * real k')" by blast
  qed
qed

lemma autoLayout_invalid:
  "rect_width safeRect \<le> 0 \<or> rect_height safeRect \<le> 0 \<Longrightarrow>
   autoLayout M tokens config safeRect autoColumns =
     (\<lparr>lr_success = False, lr_placements = [], lr_fontSize = cfg_minFontSize config,
       lr_columns = 1, lr_columnHeights = [], lr_warnings = [InvalidSafeRect]\<rparr>, 0)"
  by (simp add: autoLayout_def)

text \<open>
  Claim C1. For every token sequence, configuration and safe rectangle, \<open>autoLayout\<close>
  succeeds exactly when the rectangle is valid and some combination of the search order
  (column counts 1 up to the maximum in ascending order, only 1 without multi-column;
  within a count the font sizes from the starting size down to the minimum in steps of
  2) is feasible, and it then returns the first feasible combination of that order with
  the placements and column heights of that attempt. Consequently the font size of a
  successful result is the starting size minus an even non-negative decrement, it is
  not below the minimum size, no smaller column count is feasible at any tried font
  size, and no larger tried font size is feasible at the chosen count.
\<close>

theorem autoLayout_first_success:
  fixes M tokens config safeRect autoColumns
  defines "r \<equiv> fst (autoLayout M tokens config safeRect autoColumns)"
    and "feas \<equiv> feasible M tokens safeRect config"
    and "start \<equiv> cfg_fontSize config"
    and "lo \<equiv> cfg_minFontSize config"
  shows
    "(lr_success r \<longleftrightarrow>
        0 < rect_width safeRect \<and> 0 < rect_height safeRect
        \<and> (\<exists>cf \<in> set (searchOrder config autoColumns). feas cf))
     \<and> (lr_success r \<longrightarrow>
          find feas (searchOrder config autoColumns) = Some (lr_columns r, lr_fontSize r)
        \<and> lr_placements r
            = att_placements (fst (attemptAt M tokens safeRect config (lr_columns r, lr_fontSize r)))
        \<and> lr_columnHeights r
            = att_columnHeights (fst (attemptAt M tokens safeRect config (lr_columns r, lr_fontSize r)))
        \<and> feas (lr_columns r, lr_fontSize r)
        \<and> 1 \<le> lr_columns r
        \<and> lr_columns r \<le> (if autoColumns then nat (max 1 (cfg_maxColumns config)) else 1)
        \<and> lo \<le> lr_fontSize r
        \<and> (\<exists>k::nat. lr_fontSize r = start - 2 * real k
              \<and> (\<forall>j<k. \<not> feas (lr_columns r, start - 2 * real j)))
        \<and> (\<forall>c k. 1 \<le> c \<and> c < lr_columns r \<and> lo \<le> start - 2 * real k
              \<longrightarrow> \<not> feas (c, start - 2 * real k)))"
proof (cases "0 < rect_width safeRect \<and> 0 < rect_height safeRect")
  case False
  then have "\<not> lr_success r"
    using autoLayout_invalid [of safeRect M tokens config autoColumns]
    by (auto simp: r_def not_less)
  then show ?thesis using False by blast
next
  case True
  note cf = autoLayout_fst [of safeRect M tokens config autoColumns, folded r_def feas_def]
  show ?thesis
  proof (cases "find feas (searchOrder config autoColumns)")
    case None
    then have "\<not> lr_success r" using cf True by simp
    moreover have "\<not> (\<exists>cf \<in> set (searchOrder config autoColumns). feas cf)"
      using None by (auto simp: find_None_iff)
    ultimately show ?thesis by blast
  next
    case (Some p)
    obtain c f where p: "p = (c, f)" by (cases p)
    have r: "lr_success r" "lr_columns r = c" "lr_fontSize r = f"
      "lr_placements r = att_placements (fst (attemptAt M tokens safeRect config (c, f)))"
      "lr_columnHeights r = att_columnHeights (fst (attemptAt M tokens safeRect config (c, f)))"
      using cf True Some p by simp_all
    have fp: "find feas (List.product [1..<maxColumnsOf config autoColumns + 1] (sizesFrom start lo))
                = Some (c, f)"
      using Some p by (simp add: searchOrder_def fontSizes_def start_def lo_def)
    note first = find_product_first [OF fp]
    have ex: "\<exists>cf \<in> set (searchOrder config autoColumns). feas cf"
      using Some by (auto dest: find_Some_props)
    have mx: "c \<le> (if autoColumns then nat (max 1 (cfg_maxColumns config)) else 1)"
      using first(3) by (simp add: maxColumnsOf_def)
    show ?thesis
      using True ex r Some p first(1,2,4,5,6) mx by simp
  qed
qed


theorem autoLayout_first_success_witness:
  "lr_success (fst (autoLayout fixedProvider [TextToken (''ab'' @ [CHR 0x0A] @ ''cd'')]
       (sampleConfig 24 22 2) (sampleRect 100 30) True))
   \<and> find (feasible fixedProvider [TextToken (''ab'' @ [CHR 0x0A] @ ''cd'')] (sampleRect 100 30)
             (sampleConfig 24 22 2)) (searchOrder (sampleConfig 24 22 2) True) = Some (2, 24)
   \<and> \<not> feasible fixedProvider [TextToken (''ab'' @ [CHR 0x0A] @ ''cd'')] (sampleRect 100 30)
         (sampleConfig 24 22 2) (1, 22)"
proof -
  let ?toks = "[TextToken (''ab'' @ [CHR 0x0A] @ ''cd'')]"
  let ?r = "fst (autoLayout fixedProvider ?toks (sampleConfig 24 22 2) (sampleRect 100 30) True)"
  have s: "lr_success ?r" by code_simp
  have c: "lr_columns ?r = 2" by code_simp
  have f: "lr_fontSize ?r = 24" by code_simp
  have st: "cfg_fontSize (sampleConfig 24 22 2) = 24" "cfg_minFontSize (sampleConfig 24 22 2) = 22"
    by (simp_all add: sampleConfig_def)
  note t = autoLayout_first_success [of fixedProvider ?toks "sampleConfig 24 22 2"
      "sampleRect 100 30" True, THEN conjunct2, rule_format, OF s]
  have a: "find (feasible fixedProvider ?toks (sampleRect 100 30) (sampleConfig 24 22 2))
             (searchOrder (sampleConfig 24 22 2) True) = Some (2, 24)"
    using t [THEN conjunct1] unfolding c f .
  have "1 \<le> (1::nat) \<and> 1 < lr_columns ?r
        \<and> cfg_minFontSize (sampleConfig 24 22 2) \<le> cfg_fontSize (sampleConfig 24 22 2) - 2 * real (1::nat)"
    unfolding c st by simp
  then have "\<not> feasible fixedProvider ?toks (sampleRect 100 30) (sampleConfig 24 22 2)
        (1, cfg_fontSize (sampleConfig 24 22 2) - 2 * real (1::nat))"
    using t by blast
  then have b: "\<not> feasible fixedProvider ?toks (sampleRect 100 30) (sampleConfig 24 22 2) (1, 22)"
    unfolding st by simp
  from s a b show ?thesis by (intro conjI)
qed

text \<open>
  Claim C9. For every input whose safe rectangle has width at most 0 or height at most
  0, \<open>autoLayout\<close> returns the failure result with the invalid-safe-rectangle message
  at once: no column count or font size is tried (no attempt's warning is recorded), the
  measurement provider is called zero times, and the result is the same for every
  provider.
\<close>

theorem autoLayout_degenerate:
  "rect_width safeRect \<le> 0 \<or> rect_height safeRect \<le> 0 \<Longrightarrow>
     autoLayout M tokens config safeRect autoColumns =
       (\<lparr>lr_success = False, lr_placements = [], lr_fontSize = cfg_minFontSize config,
         lr_columns = 1, lr_columnHeights = [], lr_warnings = [InvalidSafeRect]\<rparr>, 0)
     \<and> \<not> lr_success (fst (autoLayout M tokens config safeRect autoColumns))
     \<and> snd (autoLayout M tokens config safeRect autoColumns) = 0
     \<and> (\<forall>M'. autoLayout M' tokens config safeRect autoColumns
               = autoLayout M tokens config safeRect autoColumns)"
  by (simp add: autoLayout_def)

theorem autoLayout_degenerate_witness:
  "(rect_width (sampleRect 0 30) \<le> 0 \<or> rect_height (sampleRect 0 30) \<le> 0)
   \<and> \<not> lr_success (fst (autoLayout fixedProvider [TextToken ''ab''] (sampleConfig 24 22 2)
            (sampleRect 0 30) True))
   \<and> snd (autoLayout fixedProvider [TextToken ''ab''] (sampleConfig 24 22 2)
            (sampleRect 0 30) True) = 0"
proof -
  have h: "rect_width (sampleRect 0 30) \<le> 0 \<or> rect_height (sampleRect 0 30) \<le> 0"
    by (simp add: sampleRect_def)
  note t = autoLayout_degenerate [OF h, of fixedProvider "[TextToken ''ab'']" "sampleConfig 24 22 2" True]
  from h t [THEN conjunct2, THEN conjunct1] t [THEN conjunct2, THEN conjunct2, THEN conjunct1]
  show ?thesis by (intro conjI)
qed

text \<open>
  Claim C10. Whenever \<open>autoLayout\<close> returns a result that is not a success, for any
  input and configuration, the result has no placements, no column heights, the
  configuration's minimum font size as its font size, and 1 as its column count.
\<close>

theorem autoLayout_failure_shape:
  "\<not> lr_success (fst (autoLayout M tokens config safeRect autoColumns)) \<Longrightarrow>
     lr_placements (fst (autoLayout M tokens config safeRect autoColumns)) = []
     \<and> lr_columnHeights (fst (autoLayout M tokens config safeRect autoColumns)) = []
     \<and> lr_fontSize (fst (autoLayout M tokens config safeRect autoColumns)) = cfg_minFontSize config
     \<and> lr_columns (fst (autoLayout M tokens config safeRect autoColumns)) = 1"
proof (cases "0 < rect_width safeRect \<and> 0 < rect_height safeRect")
  case False
  then show ?thesis
    using autoLayout_invalid [of safeRect M tokens config autoColumns] by (auto simp: not_less)
next
  case True
  assume f: "\<not> lr_success (fst (autoLayout M tokens config safeRect autoColumns))"
  show ?thesis
  proof (cases "find (feasible M tokens safeRect config) (searchOrder config autoColumns)")
    case None
    then show ?thesis
      using autoLayout_fst [of safeRect M tokens config autoColumns] True by simp
  next
    case (Some cf)
    then have "lr_success (fst (autoLayout M tokens config safeRect autoColumns))"
      using autoLayout_fst [of safeRect M tokens config autoColumns] True by simp
    then show ?thesis using f by simp
  qed
qed

theorem autoLayout_failure_shape_witness:
  "\<not> lr_success (fst (autoLayout fixedProvider [TextToken ''a''] (sampleConfig 24 20 1)
        (sampleRect 100 10) False))
   \<and> lr_placements (fst (autoLayout fixedProvider [TextToken ''a''] (sampleConfig 24 20 1)
        (sampleRect 100 10) False)) = []
   \<and> lr_columnHeights (fst (autoLayout fixedProvider [TextToken ''a''] (sampleConfig 24 20 1)
        (sampleRect 100 10) False)) = []
   \<and> lr_fontSize (fst (autoLayout fixedProvider [TextToken ''a''] (sampleConfig 24 20 1)
        (sampleRect 100 10) False)) = 20
   \<and> lr_columns (fst (autoLayout fixedProvider [TextToken ''a''] (sampleConfig 24 20 1)
        (sampleRect 100 10) False)) = 1"
proof -
  have f: "\<not> lr_success (fst (autoLayout fixedProvider [TextToken ''a''] (sampleConfig 24 20 1)
        (sampleRect 100 10) False))"
    by code_simp
  have m: "cfg_minFontSize (sampleConfig 24 20 1) = 20" by (simp add: sampleConfig_def)
  show ?thesis
    using f autoLayout_failure_shape [OF f] unfolding m by simp
qed

text \<open>
  Claim C2, evaluated at an input that breaks it. With two columns allowed, a safe
  rectangle 10 high and one line 24 high, the line does not fit the first column, moves
  to the second column and is placed there without a further test: the layout succeeds
  with column heights 0 and 24, and 24 exceeds the height 10 plus the tolerance 0.5.
\<close>

theorem autoLayout_column_height_exceeds:
  "lr_success (fst (autoLayout fixedProvider [TextToken ''a''] (sampleConfig 20 20 2)
       (sampleRect 100 10) True))
   \<and> lr_columnHeights (fst (autoLayout fixedProvider [TextToken ''a''] (sampleConfig 20 20 2)
       (sampleRect 100 10) True)) = [0, 24]
   \<and> \<not> (24 \<le> rect_height (sampleRect 100 10) + 0.5)"
proof (intro conjI)
  show "lr_success (fst (autoLayout fixedProvider [TextToken ''a''] (sampleConfig 20 20 2)
       (sampleRect 100 10) True))" by code_simp
  show "lr_columnHeights (fst (autoLayout fixedProvider [TextToken ''a''] (sampleConfig 20 20 2)
       (sampleRect 100 10) True)) = [0, 24]" by code_simp
  show "\<not> (24 \<le> rect_height (sampleRect 100 10) + 0.5)" by (simp add: sampleRect_def)
qed

section \<open>Narrow columns\<close>

lemma layoutWithConfig_narrow:
  "columnWidthOf safeRect config c \<le> 20 \<Longrightarrow>
   layoutWithConfig M tokens safeRect f c config ctx =
     (\<lparr>att_success = False, att_placements = [], att_overflow = True,
       att_warnings = [ColumnTooNarrow], att_columnHeights = replicate c 0\<rparr>, 0)"
  by (simp add: layoutWithConfig_def)

lemma fontSizeLoop_narrow:
  assumes "columnWidthOf safeRect config c \<le> 20"
  shows "fontSizeLoop M tokens safeRect config c ctx f warns calls =
     (\<lparr>fs_success = False, fs_placements = [], fs_fontSize = cfg_minFontSize config,
       fs_warnings = warns @ replicate (stepCount f (cfg_minFontSize config)) ColumnTooNarrow,
       fs_columnHeights = []\<rparr>, calls)"
proof (induction "stepCount f (cfg_minFontSize config)" arbitrary: f warns calls)
  case 0
  then have "\<not> cfg_minFontSize config \<le> f"
    using stepCount_pos [of "cfg_minFontSize config" f] by auto
  then show ?case using 0
    by (subst fontSizeLoop_step) simp
next
  case (Suc n)
  then have le: "cfg_minFontSize config \<le> f" by (auto simp: stepCount_def split: if_splits)
  have n: "n = stepCount (f - 2) (cfg_minFontSize config)"
    using Suc.hyps(2) stepCount_step [OF le] by simp
  have a: "attemptAt M tokens safeRect config (c, f) =
     (\<lparr>att_success = False, att_placements = [], att_overflow = True,
       att_warnings = [ColumnTooNarrow], att_columnHeights = replicate c 0\<rparr>, 0)"
    using assms by (simp add: attemptAt_def layoutWithConfig_narrow)
  show ?case
    using le Suc.hyps(1) [OF n] Suc.hyps(2) [symmetric] n
    by (subst fontSizeLoop_step) (simp add: a feasible_def replicate_app_Cons_same)
qed

lemma length_fontSizes:
  "length (fontSizes config) = stepCount (cfg_fontSize config) (cfg_minFontSize config)"
  by (simp add: fontSizes_def sizesFrom_def)

text \<open>
  Claim C5, amended. For every layout request and every column count whose computed
  column width is at most 20, each attempt at that column count fails at once, before
  any measurement, with the narrow-column reason of its own. The search does not stop
  there: it makes that attempt at every font size from the starting size down to the
  minimum in steps of 2, records the reason once per font size, calls the provider
  zero times, and then fails the column count.
\<close>

theorem narrow_column_retried_at_every_size:
  "columnWidthOf safeRect config c \<le> 20 \<Longrightarrow>
     (\<forall>f ctx'. layoutWithConfig M tokens safeRect f c config ctx' =
        (\<lparr>att_success = False, att_placements = [], att_overflow = True,
          att_warnings = [ColumnTooNarrow], att_columnHeights = replicate c 0\<rparr>, 0))
     \<and> findFontSizeForColumns M tokens safeRect config c ctx =
        (\<lparr>fs_success = False, fs_placements = [], fs_fontSize = cfg_minFontSize config,
          fs_warnings = replicate (length (fontSizes config)) ColumnTooNarrow,
          fs_columnHeights = []\<rparr>, 0)"
  by (simp add: layoutWithConfig_narrow findFontSizeForColumns_def fontSizeLoop_narrow
        length_fontSizes)

text \<open>The claim as stated fails: at column width 10 the loop, after the narrow
  attempt at font size 24, carries on at font size 22, and the column count is attempted
  at all three font sizes 24, 22 and 20.\<close>

theorem narrow_column_retried_counterexample:
  "columnWidthOf (sampleRect 10 100) (sampleConfig 24 20 1) 1 < 20
   \<and> fontSizeLoop fixedProvider [TextToken ''a''] (sampleRect 10 100) (sampleConfig 24 20 1) 1
        (createMeasureContext ''serif'' 24) 24 [] 0
      = fontSizeLoop fixedProvider [TextToken ''a''] (sampleRect 10 100) (sampleConfig 24 20 1) 1
        (createMeasureContext ''serif'' 24) 22 [ColumnTooNarrow] 0
   \<and> fs_warnings (fst (findFontSizeForColumns fixedProvider [TextToken ''a'']
        (sampleRect 10 100) (sampleConfig 24 20 1) 1 (createMeasureContext ''serif'' 24)))
      = [ColumnTooNarrow, ColumnTooNarrow, ColumnTooNarrow]"
proof (intro conjI)
  show "columnWidthOf (sampleRect 10 100) (sampleConfig 24 20 1) 1 < 20"
    by (simp add: columnWidthOf_def sampleRect_def sampleConfig_def)
  show "fontSizeLoop fixedProvider [TextToken ''a''] (sampleRect 10 100) (sampleConfig 24 20 1) 1
        (createMeasureContext ''serif'' 24) 24 [] 0
      = fontSizeLoop fixedProvider [TextToken ''a''] (sampleRect 10 100) (sampleConfig 24 20 1) 1
        (createMeasureContext ''serif'' 24) 22 [ColumnTooNarrow] 0"
    by code_simp
  show "fs_warnings (fst (findFontSizeForColumns fixedProvider [TextToken ''a'']
        (sampleRect 10 100) (sampleConfig 24 20 1) 1 (createMeasureContext ''serif'' 24)))
      = [ColumnTooNarrow, ColumnTooNarrow, ColumnTooNarrow]"
    by code_simp
qed

theorem narrow_column_retried_witness:
  "columnWidthOf (sampleRect 10 100) (sampleConfig 24 20 1) 1 \<le> 20
   \<and> findFontSizeForColumns fixedProvider [TextToken ''a''] (sampleRect 10 100)
        (sampleConfig 24 20 1) 1 (createMeasureContext ''serif'' 24) =
        (\<lparr>fs_success = False, fs_placements = [], fs_fontSize = 20,
          fs_warnings = [ColumnTooNarrow, ColumnTooNarrow, ColumnTooNarrow],
          fs_columnHeights = []\<rparr>, 0)"
proof -
  have h: "columnWidthOf (sampleRect 10 100) (sampleConfig 24 20 1) 1 \<le> 20"
    by (simp add: columnWidthOf_def sampleRect_def sampleConfig_def)
  have l: "length (fontSizes (sampleConfig 24 20 1)) = 3" by code_simp
  have m: "cfg_minFontSize (sampleConfig 24 20 1) = 20" by (simp add: sampleConfig_def)
  have r: "replicate 3 ColumnTooNarrow = [ColumnTooNarrow, ColumnTooNarrow, ColumnTooNarrow]"
    by (simp add: numeral_3_eq_3)
  show ?thesis
    using h narrow_column_retried_at_every_size [OF h, of fixedProvider "[TextToken ''a'']"
        "createMeasureContext ''serif'' 24", THEN conjunct2]
    unfolding l m r by simp
qed

section \<open>Warnings\<close>

lemma concat_attempt_warnings:
  assumes "\<forall>cf \<in> set xs. \<not> feasible M tokens safeRect config cf"
  shows "concat (map (\<lambda>cf. att_warnings (fst (attemptAt M tokens safeRect config cf))) xs)
       = map (\<lambda>cf. if columnWidthOf safeRect config (fst cf) \<le> 20 then ColumnTooNarrow
                     else ColumnOverflow) xs"
  using assms by (induction xs) (simp_all add: attemptAt_warnings)

lemma alignLayout_warnings: "lr_warnings (alignLayout layout safeRect cr) = lr_warnings layout"
  by (simp add: alignLayout_def Let_def)

lemma applyTextOffset_warnings:
  "lr_warnings (applyTextOffset layout ox oy safeRect) =
     (if lr_success layout \<and> (ox \<noteq> 0 \<or> oy \<noteq> 0)
         \<and> leavesSafeRect (offsetBBox layout ox oy) safeRect
         \<and> OutsideSafeRect \<notin> set (lr_warnings layout)
      then lr_warnings layout @ [OutsideSafeRect] else lr_warnings layout)"
  by (simp add: applyTextOffset_def Let_def)

lemma computeScene_warnings:
  fixes M canvasWidth canvasHeight characterImage characterOptions text_in inlineAssets
    layoutConfig options
  defines "scene \<equiv> computeScene M canvasWidth canvasHeight characterImage characterOptions
                      text_in inlineAssets layoutConfig options"
  defines "raw \<equiv> fst (autoLayout M (tokenizeText text_in inlineAssets) layoutConfig
                     (sc_safeRect scene) (so_autoColumns options))"
  shows "sc_warnings scene = lr_warnings (sc_layout scene)
       \<and> (sc_warnings scene = lr_warnings raw
            \<or> sc_warnings scene = lr_warnings raw @ [OutsideSafeRect])"
  unfolding raw_def scene_def computeScene_def Let_def
  by (simp add: applyTextOffset_warnings alignLayout_warnings)

text \<open>
  Claim C4, amended. For every layout invocation the warnings list of the returned
  result holds one entry for each failed attempt, in search order and without
  deduplication: the narrow-column message for an attempt whose column width is at most
  20 and the overflow message for any other failed attempt, so equal entries repeat as
  often as attempts fail for the same reason. The list is the single
  invalid-safe-rectangle message for a degenerate rectangle, and the single generic
  message when the search fails without any attempt. Alignment and the user offset keep
  this list and append at most the one boundary message, and this is the warnings list
  of the scene.
\<close>

theorem autoLayout_warnings_accumulate:
  fixes M tokens config safeRect autoColumns canvasWidth canvasHeight characterImage
    characterOptions text_in inlineAssets options
  defines "r \<equiv> fst (autoLayout M tokens config safeRect autoColumns)"
    and "failed \<equiv> takeWhile (\<lambda>cf. \<not> feasible M tokens safeRect config cf)
                    (searchOrder config autoColumns)"
    and "scene \<equiv> computeScene M canvasWidth canvasHeight characterImage characterOptions
                      text_in inlineAssets config options"
  defines "raw \<equiv> fst (autoLayout M (tokenizeText text_in inlineAssets) config
                     (sc_safeRect scene) (so_autoColumns options))"
  shows "lr_warnings r =
      (if rect_width safeRect \<le> 0 \<or> rect_height safeRect \<le> 0 then [InvalidSafeRect]
       else if \<not> lr_success r \<and> failed = [] then [ContentTooLarge]
       else map (\<lambda>cf. if columnWidthOf safeRect config (fst cf) \<le> 20 then ColumnTooNarrow
                       else ColumnOverflow) failed)
    \<and> (lr_warnings (applyTextOffset (alignLayout r safeRect cr) ox oy safeRect) = lr_warnings r
       \<or> lr_warnings (applyTextOffset (alignLayout r safeRect cr) ox oy safeRect)
            = lr_warnings r @ [OutsideSafeRect])
    \<and> (sc_warnings scene = lr_warnings raw
       \<or> sc_warnings scene = lr_warnings raw @ [OutsideSafeRect])"
proof (intro conjI)
  show "sc_warnings scene = lr_warnings raw
       \<or> sc_warnings scene = lr_warnings raw @ [OutsideSafeRect]"
    unfolding scene_def raw_def
    using computeScene_warnings [of M canvasWidth canvasHeight characterImage characterOptions
        text_in inlineAssets config options]
    by (rule conjunct2)
  show "lr_warnings (applyTextOffset (alignLayout r safeRect cr) ox oy safeRect) = lr_warnings r
       \<or> lr_warnings (applyTextOffset (alignLayout r safeRect cr) ox oy safeRect)
            = lr_warnings r @ [OutsideSafeRect]"
    by (simp add: applyTextOffset_warnings alignLayout_warnings)
  let ?feas = "feasible M tokens safeRect config"
  let ?reason = "\<lambda>cf. if columnWidthOf safeRect config (fst cf) \<le> 20 then ColumnTooNarrow
                       else ColumnOverflow"
  have nf: "\<forall>cf \<in> set failed. \<not> ?feas cf"
    unfolding failed_def by (auto dest: set_takeWhileD)
  show "lr_warnings r =
      (if rect_width safeRect \<le> 0 \<or> rect_height safeRect \<le> 0 then [InvalidSafeRect]
       else if \<not> lr_success r \<and> failed = [] then [ContentTooLarge]
       else map ?reason failed)"
  proof (cases "0 < rect_width safeRect \<and> 0 < rect_height safeRect")
    case False
    then show ?thesis
      using autoLayout_invalid [of safeRect M tokens config autoColumns]
      by (auto simp: r_def not_less)
  next
    case True
    then have v: "\<not> (rect_width safeRect \<le> 0 \<or> rect_height safeRect \<le> 0)" by auto
    note cf = autoLayout_fst [of safeRect M tokens config autoColumns, folded r_def]
    show ?thesis
    proof (cases "find ?feas (searchOrder config autoColumns)")
      case None
      then have f: "failed = searchOrder config autoColumns"
        unfolding failed_def by (rule takeWhile_find_None)
      have e: "concat (map (\<lambda>cf. att_warnings (fst (attemptAt M tokens safeRect config cf)))
                 (searchOrder config autoColumns)) = map ?reason (searchOrder config autoColumns)"
        using concat_attempt_warnings [OF nf] unfolding f .
      have n: "\<not> lr_success r" using cf True None by simp
      have "lr_warnings r =
          (if concat (map (\<lambda>cf. att_warnings (fst (attemptAt M tokens safeRect config cf)))
                 (searchOrder config autoColumns)) \<noteq> []
           then concat (map (\<lambda>cf. att_warnings (fst (attemptAt M tokens safeRect config cf)))
                 (searchOrder config autoColumns))
           else [ContentTooLarge])"
        using cf True None by simp
      then have "lr_warnings r =
          (if map ?reason failed \<noteq> [] then map ?reason failed else [ContentTooLarge])"
        unfolding e f .
      then show ?thesis using v n by (cases "failed = []") simp_all
    next
      case (Some p)
      then have "?feas p" by (auto dest: find_Some_props)
      then have a: "att_warnings (fst (attemptAt M tokens safeRect config p)) = []"
        by (simp add: attemptAt_warnings)
      have s: "lr_success r" using cf True Some by simp
      have "lr_warnings r =
          concat (map (\<lambda>cf. att_warnings (fst (attemptAt M tokens safeRect config cf))) failed)
          @ att_warnings (fst (attemptAt M tokens safeRect config p))"
        using cf True Some by (simp add: failed_def)
      then have "lr_warnings r = map ?reason failed"
        unfolding a concat_attempt_warnings [OF nf] by simp
      then show ?thesis using v s by simp
    qed
  qed
qed

text \<open>The claim as stated fails: two lines that need the second column make both
  one-column attempts overflow, and the successful result lists the overflow message
  twice.\<close>

theorem autoLayout_warnings_duplicates:
  "lr_success (fst (autoLayout fixedProvider [TextToken (''ab'' @ [CHR 0x0A] @ ''cd'')]
       (sampleConfig 24 22 2) (sampleRect 100 30) True))
   \<and> lr_warnings (fst (autoLayout fixedProvider [TextToken (''ab'' @ [CHR 0x0A] @ ''cd'')]
       (sampleConfig 24 22 2) (sampleRect 100 30) True)) = [ColumnOverflow, ColumnOverflow]
   \<and> \<not> distinct (lr_warnings (fst (autoLayout fixedProvider
       [TextToken (''ab'' @ [CHR 0x0A] @ ''cd'')] (sampleConfig 24 22 2) (sampleRect 100 30) True)))"
proof -
  have w: "lr_warnings (fst (autoLayout fixedProvider [TextToken (''ab'' @ [CHR 0x0A] @ ''cd'')]
       (sampleConfig 24 22 2) (sampleRect 100 30) True)) = [ColumnOverflow, ColumnOverflow]"
    by code_simp
  have s: "lr_success (fst (autoLayout fixedProvider [TextToken (''ab'' @ [CHR 0x0A] @ ''cd'')]
       (sampleConfig 24 22 2) (sampleRect 100 30) True))"
    by code_simp
  show ?thesis unfolding w using s by simp
qed

theorem autoLayout_warnings_accumulate_witness:
  "lr_warnings (fst (autoLayout fixedProvider [TextToken (''ab'' @ [CHR 0x0A] @ ''cd'')]
       (sampleConfig 24 22 2) (sampleRect 100 30) True))
     = map (\<lambda>cf. if columnWidthOf (sampleRect 100 30) (sampleConfig 24 22 2) (fst cf) \<le> 20
                   then ColumnTooNarrow else ColumnOverflow)
         (takeWhile (\<lambda>cf. \<not> feasible fixedProvider [TextToken (''ab'' @ [CHR 0x0A] @ ''cd'')]
                               (sampleRect 100 30) (sampleConfig 24 22 2) cf)
            (searchOrder (sampleConfig 24 22 2) True))
   \<and> lr_success (fst (autoLayout fixedProvider [TextToken (''ab'' @ [CHR 0x0A] @ ''cd'')]
       (sampleConfig 24 22 2) (sampleRect 100 30) True))"
proof -
  have s: "lr_success (fst (autoLayout fixedProvider [TextToken (''ab'' @ [CHR 0x0A] @ ''cd'')]
       (sampleConfig 24 22 2) (sampleRect 100 30) True))"
    by code_simp
  have v: "\<not> (rect_width (sampleRect 100 30) \<le> 0 \<or> rect_height (sampleRect 100 30) \<le> 0)"
    by (simp add: sampleRect_def)
  show ?thesis
    using autoLayout_warnings_accumulate [of fixedProvider
        "[TextToken (''ab'' @ [CHR 0x0A] @ ''cd'')]" "sampleConfig 24 22 2" "sampleRect 100 30"
        True, THEN conjunct1] s v
    by simp
qed

section \<open>Safe rectangle\<close>

lemma hd_insort_key:
  "hd (insort_key f x ys) = (if ys = [] \<or> f x \<le> f (hd ys) then x else hd ys)"
  by (cases ys) auto

lemma sort_key_Nil_iff: "sort_key f xs = [] \<longleftrightarrow> xs = []"
  by (metis length_sort list.size(3) length_0_conv)

lemma hd_sort_key_first:
  "xs \<noteq> [] \<Longrightarrow>
     \<exists>ys zs. xs = ys @ hd (sort_key f xs) # zs
        \<and> (\<forall>y \<in> set ys. f (hd (sort_key f xs)) < f y)
        \<and> (\<forall>z \<in> set zs. f (hd (sort_key f xs)) \<le> f z)"
proof (induction xs)
  case Nil
  then show ?case by simp
next
  case (Cons x xs)
  show ?case
  proof (cases "xs = []")
    case True
    show ?thesis unfolding True by (intro exI [of _ "[]"]) simp
  next
    case False
    let ?m = "hd (sort_key f xs)"
    from Cons.IH [OF False] obtain ys zs where d: "xs = ys @ ?m # zs"
      and l: "\<forall>y \<in> set ys. f ?m < f y" and g: "\<forall>z \<in> set zs. f ?m \<le> f z"
      by blast
    have ne: "sort_key f xs \<noteq> []" using False by (simp add: sort_key_Nil_iff)
    show ?thesis
    proof (cases "f x \<le> f ?m")
      case True
      then have h: "hd (sort_key f (x # xs)) = x" using ne by (simp add: hd_insort_key)
      have "\<forall>z \<in> set xs. f x \<le> f z"
      proof
        fix z assume "z \<in> set xs"
        then have "z \<in> set ys \<or> z = ?m \<or> z \<in> set zs" using d by (metis Un_iff set_append set_ConsD)
        then have "f ?m \<le> f z" using l g by force
        then show "f x \<le> f z" using True by simp
      qed
      then have "x # xs = [] @ x # xs \<and> (\<forall>y \<in> set []. f x < f y) \<and> (\<forall>z \<in> set xs. f x \<le> f z)"
        by simp
      then show ?thesis unfolding h by blast
    next
      case False
      then have h: "hd (sort_key f (x # xs)) = ?m" using ne by (simp add: hd_insort_key)
      have "x # xs = (x # ys) @ ?m # zs" using d by simp
      moreover have "\<forall>y \<in> set (x # ys). f ?m < f y" using l False by simp
      ultimately show ?thesis unfolding h using g by blast
    qed
  qed
qed

text \<open>
  Claim C7. For every canvas size, optional character rectangle and paddings: without
  a character rectangle \<open>computeSafeRect\<close> returns the canvas inset by the outer padding
  on all sides, with width and height at least 10. With a character rectangle it takes
  the left, top and right candidates, each inset from the character rectangle by the
  safe padding, keeps those with width above 20 and height above 20, and returns the
  first survivor of maximal area: every earlier survivor (in the order left, top,
  right) has a strictly smaller area and every later one an area not larger. Without
  survivors it returns the full outer rectangle.
\<close>

theorem computeSafeRect_spec:
  fixes canvasWidth canvasHeight outerPadding safePadding :: real and cr :: Rect
  defines "w \<equiv> max (canvasWidth - outerPadding * 2) 10"
    and "h \<equiv> max (canvasHeight - outerPadding * 2) 10"
  defines "outer \<equiv> \<lparr>rect_x = outerPadding, rect_y = outerPadding, rect_width = w, rect_height = h\<rparr>"
    and "leftRect \<equiv> \<lparr>rect_x = outerPadding, rect_y = outerPadding,
                      rect_width = max (rect_x cr - safePadding - outerPadding) 0, rect_height = h\<rparr>"
    and "topRect \<equiv> \<lparr>rect_x = outerPadding, rect_y = outerPadding, rect_width = w,
                     rect_height = max (rect_y cr - safePadding - outerPadding) 0\<rparr>"
    and "rightRect \<equiv> \<lparr>rect_x = rect_x cr + rect_width cr + safePadding, rect_y = outerPadding,
                       rect_width = max (outerPadding + w - (rect_x cr + rect_width cr + safePadding)) 0,
                       rect_height = h\<rparr>"
  defines "survivors \<equiv> filter (\<lambda>r. 20 < rect_width r \<and> 20 < rect_height r)
                          [leftRect, topRect, rightRect]"
    and "res \<equiv> computeSafeRect canvasWidth canvasHeight (Some cr) outerPadding safePadding"
  shows "computeSafeRect canvasWidth canvasHeight None outerPadding safePadding = outer
       \<and> 10 \<le> rect_width outer \<and> 10 \<le> rect_height outer
       \<and> (survivors = [] \<longrightarrow> res = outer)
       \<and> (survivors \<noteq> [] \<longrightarrow>
            (\<exists>earlier later. survivors = earlier @ res # later
               \<and> (\<forall>c \<in> set earlier. area c < area res)
               \<and> (\<forall>c \<in> set later. area c \<le> area res)))"
proof -
  have n: "computeSafeRect canvasWidth canvasHeight None outerPadding safePadding = outer"
    by (simp add: computeSafeRect_def outer_def w_def h_def)
  have b: "10 \<le> rect_width outer \<and> 10 \<le> rect_height outer"
    by (simp add: outer_def w_def h_def)
  have r: "res = (if survivors = [] then outer else hd (sort_key (\<lambda>r. - area r) survivors))"
    unfolding res_def survivors_def leftRect_def topRect_def rightRect_def outer_def w_def h_def
      computeSafeRect_def Let_def
    by simp
  have s: "survivors \<noteq> [] \<longrightarrow>
            (\<exists>earlier later. survivors = earlier @ res # later
               \<and> (\<forall>c \<in> set earlier. area c < area res)
               \<and> (\<forall>c \<in> set later. area c \<le> area res))"
  proof
    assume ne: "survivors \<noteq> []"
    then have "res = hd (sort_key (\<lambda>r. - area r) survivors)" using r by simp
    then show "\<exists>earlier later. survivors = earlier @ res # later
               \<and> (\<forall>c \<in> set earlier. area c < area res)
               \<and> (\<forall>c \<in> set later. area c \<le> area res)"
      using hd_sort_key_first [OF ne, of "\<lambda>r. - area r"] by simp
  qed
  show ?thesis using n b r s by simp
qed

theorem computeSafeRect_spec_witness:
  "filter (\<lambda>r. 20 < rect_width r \<and> 20 < rect_height r)
     [\<lparr>rect_x = 72, rect_y = 72, rect_width = 338, rect_height = 856\<rparr>,
      \<lparr>rect_x = 72, rect_y = 72, rect_width = 856, rect_height = 338\<rparr>,
      \<lparr>rect_x = 990, rect_y = 72, rect_width = 0, rect_height = 856\<rparr>]
     = [\<lparr>rect_x = 72, rect_y = 72, rect_width = 338, rect_height = 856\<rparr>,
        \<lparr>rect_x = 72, rect_y = 72, rect_width = 856, rect_height = 338\<rparr>]
   \<and> computeSafeRect 1000 1000
       (Some \<lparr>rect_x = 450, rect_y = 450, rect_width = 500, rect_height = 500\<rparr>) 72 40
     = \<lparr>rect_x = 72, rect_y = 72, rect_width = 338, rect_height = 856\<rparr>
   \<and> computeSafeRect 1000 1000 None 72 40
     = \<lparr>rect_x = 72, rect_y = 72, rect_width = 856, rect_height = 856\<rparr>
   \<and> computeSafeRect 100 100
       (Some \<lparr>rect_x = 30, rect_y = 30, rect_width = 40, rect_height = 40\<rparr>) 10 5
     = \<lparr>rect_x = 10, rect_y = 10, rect_width = 80, rect_height = 80\<rparr>"
proof -
  note t = computeSafeRect_spec [where canvasWidth = 1000 and canvasHeight = 1000
      and outerPadding = 72 and safePadding = 40
      and cr = "\<lparr>rect_x = 450, rect_y = 450, rect_width = 500, rect_height = 500\<rparr>"]
  note u = computeSafeRect_spec [where canvasWidth = 100 and canvasHeight = 100
      and outerPadding = 10 and safePadding = 5
      and cr = "\<lparr>rect_x = 30, rect_y = 30, rect_width = 40, rect_height = 40\<rparr>"]
  have a: "filter (\<lambda>r. 20 < rect_width r \<and> 20 < rect_height r)
     [\<lparr>rect_x = 72, rect_y = 72, rect_width = 338, rect_height = 856\<rparr>,
      \<lparr>rect_x = 72, rect_y = 72, rect_width = 856, rect_height = 338\<rparr>,
      \<lparr>rect_x = 990, rect_y = 72, rect_width = 0, rect_height = 856\<rparr>]
     = [\<lparr>rect_x = 72, rect_y = 72, rect_width = 338, rect_height = 856\<rparr>,
        \<lparr>rect_x = 72, rect_y = 72, rect_width = 856, rect_height = 338\<rparr>]"
    by simp
  have b: "computeSafeRect 1000 1000
       (Some \<lparr>rect_x = 450, rect_y = 450, rect_width = 500, rect_height = 500\<rparr>) 72 40
     = \<lparr>rect_x = 72, rect_y = 72, rect_width = 338, rect_height = 856\<rparr>"
    by code_simp
  have c: "computeSafeRect 1000 1000 None 72 40
     = \<lparr>rect_x = 72, rect_y = 72, rect_width = 856, rect_height = 856\<rparr>"
    using t [THEN conjunct1] by simp
  have d: "computeSafeRect 100 100
       (Some \<lparr>rect_x = 30, rect_y = 30, rect_width = 40, rect_height = 40\<rparr>) 10 5
     = \<lparr>rect_x = 10, rect_y = 10, rect_width = 80, rect_height = 80\<rparr>"
    using u [THEN conjunct2, THEN conjunct2, THEN conjunct2, THEN conjunct1] by simp
  from a b c d show ?thesis by (intro conjI)
qed

section \<open>User offset\<close>

lemma applyTextOffset_success:
  "lr_success (applyTextOffset layout ox oy safeRect) = lr_success layout"
  by (simp add: applyTextOffset_def Let_def)

lemma belowBound_minInf:
  "belowBound (foldl (\<lambda>m v. minInf m v) m vs) b \<longleftrightarrow> belowBound m b \<or> (\<exists>v \<in> set vs. v < b)"
  by (induction vs arbitrary: m) (auto simp: belowBound_def minInf_def split: option.splits)

lemma aboveBound_maxInf:
  "aboveBound (foldl (\<lambda>m v. maxInf m v) m vs) b \<longleftrightarrow> aboveBound m b \<or> (\<exists>v \<in> set vs. v > b)"
  by (induction vs arbitrary: m) (auto simp: aboveBound_def maxInf_def split: option.splits)

lemma foldl_growBBox:
  "foldl (growBBox ox oy) b ps =
     \<lparr>minX = foldl (\<lambda>m v. minInf m v) (minX b) (map (\<lambda>p. p_x p + ox) ps),
      maxX = foldl (\<lambda>m v. maxInf m v) (maxX b) (map (\<lambda>p. p_x p + ox + p_width p) ps),
      minY = foldl (\<lambda>m v. minInf m v) (minY b) (map (\<lambda>p. p_y p + oy) ps),
      maxY = foldl (\<lambda>m v. maxInf m v) (maxY b) (map (\<lambda>p. p_y p + oy + p_height p) ps)\<rparr>"
  by (induction ps arbitrary: b) (simp_all add: growBBox_def)

lemma leavesSafeRect_iff:
  "leavesSafeRect (offsetBBox layout ox oy) safeRect \<longleftrightarrow>
     (\<exists>p \<in> set (lr_placements layout).
        p_x p + ox < rect_x safeRect
        \<or> p_x p + ox + p_width p > rect_x safeRect + rect_width safeRect
        \<or> p_y p + oy < rect_y safeRect
        \<or> p_y p + oy + p_height p > rect_y safeRect + rect_height safeRect)"
  unfolding leavesSafeRect_def offsetBBox_def foldl_growBBox
  by (simp add: belowBound_minInf aboveBound_maxInf) (auto simp: belowBound_def aboveBound_def)

text \<open>
  Claim C8. For every successful layout and every non-zero user offset that pushes the
  bounding box of the shifted placements outside the safe rectangle (some placement
  crosses an edge), \<open>applyTextOffset\<close> appends exactly one boundary message, once per
  call however many placements cross, and leaves the list unchanged when an equal
  message is already there; the message then occurs as often as before, and once if it
  was absent. Applying the same offset again adds nothing.
\<close>

theorem applyTextOffset_boundary_warning:
  assumes "lr_success layout" and "offsetX \<noteq> 0 \<or> offsetY \<noteq> 0"
    and "leavesSafeRect (offsetBBox layout offsetX offsetY) safeRect"
  shows "lr_warnings (applyTextOffset layout offsetX offsetY safeRect) =
           (if OutsideSafeRect \<in> set (lr_warnings layout) then lr_warnings layout
            else lr_warnings layout @ [OutsideSafeRect])
       \<and> count_list (lr_warnings (applyTextOffset layout offsetX offsetY safeRect)) OutsideSafeRect
           = max 1 (count_list (lr_warnings layout) OutsideSafeRect)
       \<and> lr_warnings (applyTextOffset (applyTextOffset layout offsetX offsetY safeRect)
                        offsetX offsetY safeRect)
           = lr_warnings (applyTextOffset layout offsetX offsetY safeRect)
       \<and> (leavesSafeRect (offsetBBox layout offsetX offsetY) safeRect \<longleftrightarrow>
            (\<exists>p \<in> set (lr_placements layout).
               p_x p + offsetX < rect_x safeRect
               \<or> p_x p + offsetX + p_width p > rect_x safeRect + rect_width safeRect
               \<or> p_y p + offsetY < rect_y safeRect
               \<or> p_y p + offsetY + p_height p > rect_y safeRect + rect_height safeRect))"
proof -
  let ?l1 = "applyTextOffset layout offsetX offsetY safeRect"
  have w1: "lr_warnings ?l1 =
           (if OutsideSafeRect \<in> set (lr_warnings layout) then lr_warnings layout
            else lr_warnings layout @ [OutsideSafeRect])"
    using assms by (auto simp: applyTextOffset_warnings)
  then have m: "OutsideSafeRect \<in> set (lr_warnings ?l1)" by simp
  have w2: "lr_warnings (applyTextOffset ?l1 offsetX offsetY safeRect) = lr_warnings ?l1"
    using m by (simp add: applyTextOffset_warnings)
  have c: "count_list (lr_warnings ?l1) OutsideSafeRect
           = max 1 (count_list (lr_warnings layout) OutsideSafeRect)"
  proof (cases "OutsideSafeRect \<in> set (lr_warnings layout)")
    case True
    then have "count_list (lr_warnings layout) OutsideSafeRect \<noteq> 0"
      by (simp add: count_list_0_iff)
    then have "0 < count_list (lr_warnings layout) OutsideSafeRect" by simp
    then show ?thesis using True w1 by simp
  next
    case False
    then have "count_list (lr_warnings layout) OutsideSafeRect = 0"
      by (simp add: count_list_0_iff)
    then show ?thesis using False w1 by simp
  qed
  show ?thesis using w1 c w2 leavesSafeRect_iff [of layout offsetX offsetY safeRect] by simp
qed

theorem applyTextOffset_boundary_warning_witness:
  "lr_success (fst (autoLayout fixedProvider [TextToken ''a''] (sampleConfig 24 20 1)
       (sampleRect 100 30) False))
   \<and> (95::real) \<noteq> 0
   \<and> leavesSafeRect (offsetBBox (fst (autoLayout fixedProvider [TextToken ''a'']
         (sampleConfig 24 20 1) (sampleRect 100 30) False)) 95 0) (sampleRect 100 30)
   \<and> lr_warnings (applyTextOffset (fst (autoLayout fixedProvider [TextToken ''a'']
         (sampleConfig 24 20 1) (sampleRect 100 30) False)) 95 0 (sampleRect 100 30))
       = [OutsideSafeRect]
   \<and> lr_warnings (applyTextOffset (applyTextOffset (fst (autoLayout fixedProvider
         [TextToken ''a''] (sampleConfig 24 20 1) (sampleRect 100 30) False)) 95 0
         (sampleRect 100 30)) 95 0 (sampleRect 100 30))
       = [OutsideSafeRect]"
proof -
  let ?l = "fst (autoLayout fixedProvider [TextToken ''a''] (sampleConfig 24 20 1)
       (sampleRect 100 30) False)"
  have s: "lr_success ?l" by code_simp
  have n: "(95::real) \<noteq> 0 \<or> (0::real) \<noteq> 0" by simp
  have v: "leavesSafeRect (offsetBBox ?l 95 0) (sampleRect 100 30)" by code_simp
  have w: "lr_warnings ?l = []" by code_simp
  note t = applyTextOffset_boundary_warning [OF s n v]
  have a: "lr_warnings (applyTextOffset ?l 95 0 (sampleRect 100 30)) = [OutsideSafeRect]"
    using t [THEN conjunct1] unfolding w by simp
  have b: "lr_warnings (applyTextOffset (applyTextOffset ?l 95 0 (sampleRect 100 30)) 95 0
             (sampleRect 100 30)) = [OutsideSafeRect]"
    using t [THEN conjunct2, THEN conjunct2, THEN conjunct1] unfolding a .
  have z: "(95::real) \<noteq> 0" by simp
  from s z v a b show ?thesis by (intro conjI)
qed

section \<open>Line metrics\<close>

lemma Max_insert_image:
  "Max (insert a (insert b (f ` set xs))) = max (Max (insert a (f ` set xs))) b"
proof -
  have "insert a (insert b (f ` set xs)) = insert b (insert a (f ` set xs))" by auto
  moreover have "Max (insert b (insert a (f ` set xs))) = max b (Max (insert a (f ` set xs)))"
    by (rule Max_insert) simp_all
  ultimately show ?thesis by (simp add: max.commute)
qed

lemma max_height_step:
  fixes B :: real
  assumes "A \<le> A'" and "D \<le> D'"
  shows "max (max B (A + D)) (A' + D') = max B (A' + D')"
  using assms by (simp add: max_def)

lemma max_height_asset:
  fixes H :: real
  assumes "h \<le> A'" and "0 \<le> D'"
  shows "max (max H h) (A' + D') = max H (A' + D')"
  using assms by (simp add: max_def)

lemma addTextRun_fields:
  "line_runs (addTextRun l ch m fs) \<noteq> []"
  "run_ascent ` set (line_runs (addTextRun l ch m fs))
     = insert (textAscent m fs) (run_ascent ` set (line_runs l))"
  "run_descent ` set (line_runs (addTextRun l ch m fs))
     = insert (textDescent m fs) (run_descent ` set (line_runs l))"
  "line_ascent (addTextRun l ch m fs) = max (line_ascent l) (textAscent m fs)"
  "line_descent (addTextRun l ch m fs) = max (line_descent l) (textDescent m fs)"
  "line_height (addTextRun l ch m fs)
     = max (line_height l) (max (line_ascent l) (textAscent m fs)
                            + max (line_descent l) (textDescent m fs))"
  by (simp_all add: addTextRun_def Let_def)

lemma addAssetRun_fields:
  "line_runs (addAssetRun l a w h) \<noteq> []"
  "run_ascent ` set (line_runs (addAssetRun l a w h)) = insert h (run_ascent ` set (line_runs l))"
  "run_descent ` set (line_runs (addAssetRun l a w h)) = insert 0 (run_descent ` set (line_runs l))"
  "line_ascent (addAssetRun l a w h) = max (line_ascent l) h"
  "line_descent (addAssetRun l a w h) = max (line_descent l) 0"
  "line_height (addAssetRun l a w h)
     = max (max (line_height l) h) (max (line_ascent l) h + max (line_descent l) 0)"
  by (simp_all add: addAssetRun_def Let_def)

lemma ok_create: "lineMetricsOk fs ratio (createLineBuffer fs ratio)"
  by (simp add: lineMetricsOk_def createLineBuffer_def)

lemma ok_addText:
  assumes "lineMetricsOk fs ratio l"
  shows "lineMetricsOk fs ratio (addTextRun l ch m fs)"
proof -
  from assms have a: "line_ascent l = Max (insert (fs * 0.8) (run_ascent ` set (line_runs l)))"
    and d: "line_descent l = Max (insert (fs * 0.2) (run_descent ` set (line_runs l)))"
    and h: "line_height l = (if line_runs l = [] then fs * ratio
          else max (fs * ratio) (line_ascent l + line_descent l))"
    by (simp_all add: lineMetricsOk_def)
  have a': "line_ascent (addTextRun l ch m fs)
      = Max (insert (fs * 0.8) (run_ascent ` set (line_runs (addTextRun l ch m fs))))"
    by (simp only: addTextRun_fields Max_insert_image a)
  have d': "line_descent (addTextRun l ch m fs)
      = Max (insert (fs * 0.2) (run_descent ` set (line_runs (addTextRun l ch m fs))))"
    by (simp only: addTextRun_fields Max_insert_image d)
  have "max (line_height l) (max (line_ascent l) (textAscent m fs)
                            + max (line_descent l) (textDescent m fs))
      = max (fs * ratio) (max (line_ascent l) (textAscent m fs)
                            + max (line_descent l) (textDescent m fs))"
  proof (cases "line_runs l = []")
    case True
    then show ?thesis using h by simp
  next
    case False
    then have "line_height l = max (fs * ratio) (line_ascent l + line_descent l)" using h by simp
    then show ?thesis by (simp only: max_height_step [OF max.cobounded1 max.cobounded1])
  qed
  then have h': "line_height (addTextRun l ch m fs)
      = max (fs * ratio) (line_ascent (addTextRun l ch m fs) + line_descent (addTextRun l ch m fs))"
    by (simp only: addTextRun_fields)
  show ?thesis
    unfolding lineMetricsOk_def using a' d' h' addTextRun_fields(1) [of l ch m fs] by simp
qed

lemma ok_addAsset:
  assumes "lineMetricsOk fs ratio l"
  shows "lineMetricsOk fs ratio (addAssetRun l a w h)"
proof -
  from assms have a: "line_ascent l = Max (insert (fs * 0.8) (run_ascent ` set (line_runs l)))"
    and d: "line_descent l = Max (insert (fs * 0.2) (run_descent ` set (line_runs l)))"
    and h: "line_height l = (if line_runs l = [] then fs * ratio
          else max (fs * ratio) (line_ascent l + line_descent l))"
    by (simp_all add: lineMetricsOk_def)
  have a': "line_ascent (addAssetRun l a w h)
      = Max (insert (fs * 0.8) (run_ascent ` set (line_runs (addAssetRun l a w h))))"
    by (simp only: addAssetRun_fields Max_insert_image a)
  have d': "line_descent (addAssetRun l a w h)
      = Max (insert (fs * 0.2) (run_descent ` set (line_runs (addAssetRun l a w h))))"
    by (simp only: addAssetRun_fields Max_insert_image d)
  have e: "max (max (line_height l) h) (max (line_ascent l) h + max (line_descent l) 0)
      = max (line_height l) (max (line_ascent l) h + max (line_descent l) 0)"
    by (rule max_height_asset) simp_all
  have "max (line_height l) (max (line_ascent l) h + max (line_descent l) 0)
      = max (fs * ratio) (max (line_ascent l) h + max (line_descent l) 0)"
  proof (cases "line_runs l = []")
    case True
    then show ?thesis using h by simp
  next
    case False
    then have "line_height l = max (fs * ratio) (line_ascent l + line_descent l)" using h by simp
    then show ?thesis by (simp only: max_height_step [OF max.cobounded1 max.cobounded1])
  qed
  then have h': "line_height (addAssetRun l a w h)
      = max (fs * ratio) (line_ascent (addAssetRun l a w h) + line_descent (addAssetRun l a w h))"
    by (simp only: addAssetRun_fields e)
  show ?thesis
    unfolding lineMetricsOk_def using a' d' h' addAssetRun_fields(1) [of l a w h] by simp
qed

lemma ok_wrapLine:
  "packOk fs ratio st \<Longrightarrow> packOk fs ratio (wrapLine w cw fs ratio st)"
  by (simp add: packOk_def wrapLine_def ok_create)

lemma ok_pushTextChar:
  "packOk fs ratio st \<Longrightarrow> packOk fs ratio (pushTextChar M ctx cw fs ratio st c)"
  using ok_wrapLine [of fs ratio st "tm_width (M ctx [c])" cw]
  by (simp add: pushTextChar_def Let_def packOk_def ok_addText)

lemma ok_pushTextSegment:
  "packOk fs ratio st \<Longrightarrow> packOk fs ratio (pushTextSegment M ctx cw fs ratio seg st)"
  unfolding pushTextSegment_def
  by (induction seg arbitrary: st) (simp_all add: ok_pushTextChar)

lemma ok_pushAssetToken:
  "packOk fs ratio st \<Longrightarrow> packOk fs ratio (pushAssetToken a cw fs ratio st)"
proof -
  assume p: "packOk fs ratio st"
  obtain w h where s: "assetSize a cw fs = (w, h)" by (cases "assetSize a cw fs")
  show ?thesis
    using ok_wrapLine [OF p, of w cw]
    by (simp add: pushAssetToken_def s Let_def packOk_def ok_addAsset)
qed

lemma ok_closeLine:
  "packOk fs ratio st \<Longrightarrow>
   packOk fs ratio (st\<lparr>ps_lines := ps_lines st @ [ps_currentLine st],
                       ps_currentLine := createLineBuffer fs ratio\<rparr>)"
  by (simp add: packOk_def ok_create)

lemma ok_pushSegments:
  "packOk fs ratio st \<Longrightarrow> packOk fs ratio (pushSegments M ctx cw fs ratio segs st)"
proof (induction segs arbitrary: st)
  case Nil
  then show ?case by simp
next
  case (Cons seg rest)
  let ?st1 = "if seg \<noteq> [] then pushTextSegment M ctx cw fs ratio seg st else st"
  have 1: "packOk fs ratio ?st1" using Cons.prems by (simp add: ok_pushTextSegment)
  show ?case
  proof (cases "rest = []")
    case True
    then show ?thesis using 1 by (simp add: Let_def)
  next
    case False
    have "packOk fs ratio (pushSegments M ctx cw fs ratio rest
            (?st1\<lparr>ps_lines := ps_lines ?st1 @ [ps_currentLine ?st1],
                   ps_currentLine := createLineBuffer fs ratio\<rparr>))"
      by (rule Cons.IH) (rule ok_closeLine [OF 1])
    then show ?thesis using False by (simp add: Let_def)
  qed
qed

lemma ok_pushToken:
  "packOk fs ratio st \<Longrightarrow> packOk fs ratio (pushToken M ctx cw fs ratio st t)"
  by (cases t) (simp_all add: pushToken_def ok_pushSegments ok_pushAssetToken)

lemma ok_foldl_pushToken:
  "packOk fs ratio st \<Longrightarrow> packOk fs ratio (foldl (pushToken M ctx cw fs ratio) st tokens)"
  by (induction tokens arbitrary: st) (simp_all add: ok_pushToken)

lemma ok_buildLines:
  "list_all (lineMetricsOk fs ratio) (ps_lines (buildLines M ctx cw fs ratio tokens))"
proof -
  let ?init = "\<lparr>ps_lines = [], ps_currentLine = createLineBuffer fs ratio, ps_measureCalls = 0\<rparr>"
  have "packOk fs ratio ?init" by (simp add: packOk_def ok_create)
  then have "packOk fs ratio (foldl (pushToken M ctx cw fs ratio) ?init tokens)"
    by (rule ok_foldl_pushToken)
  then show ?thesis by (simp add: buildLines_def Let_def packOk_def)
qed

lemma or_else_default:
  "(a = None \<or> a = Some 0) \<Longrightarrow> (b = None \<or> b = Some 0) \<Longrightarrow> or_else a (or_else b d) = d"
  by (auto simp: or_else_def)

lemma last_run_pushTextChar:
  "last (line_runs (ps_currentLine (pushTextChar M ctx cw fs ratio st c)))
     = \<lparr>run_type = RunText, run_value = [c], run_asset = None,
        run_width = tm_width (M ctx [c]),
        run_height = line_height (ps_currentLine (wrapLine (tm_width (M ctx [c])) cw fs ratio st)),
        run_ascent = textAscent (M ctx [c]) fs, run_descent = textDescent (M ctx [c]) fs,
        run_metrics = Some (M ctx [c])\<rparr>"
  by (simp add: pushTextChar_def addTextRun_def Let_def)

lemma height_mono_text: "line_height l \<le> line_height (addTextRun l ch m fs)"
  by (simp add: addTextRun_fields)

lemma height_mono_asset: "line_height l \<le> line_height (addAssetRun l a w h)"
  by (simp add: addAssetRun_fields)

text \<open>
  Claim C6, amended. For every text run whose measurement supplies no ascent (neither
  the actual nor the font bounding box, missing or zero), the run's ascent is the font
  size times 0.82, and likewise its descent is the font size times 0.18. For every line
  the packer produces, the ascent and the descent are the maxima of the line's starting
  values (font size times 0.8 and times 0.2) and of its runs' ascents and descents; a
  line with at least one run has the height max(font size times line-height ratio,
  ascent + descent) and a line without runs has the height font size times line-height
  ratio. Adding a text run or an asset run to a line never lowers its height.
\<close>

theorem line_metrics_spec:
  fixes M :: provider and fontSize lineHeightRatio columnWidth :: real
  defines "m \<equiv> \<lambda>ctx c. M ctx [c]"
    and "run \<equiv> \<lambda>ctx st c. last (line_runs (ps_currentLine
                  (pushTextChar M ctx columnWidth fontSize lineHeightRatio st c)))"
  shows
    "((actualBoundingBoxAscent (m ctx c) = None \<or> actualBoundingBoxAscent (m ctx c) = Some 0)
        \<and> (fontBoundingBoxAscent (m ctx c) = None \<or> fontBoundingBoxAscent (m ctx c) = Some 0)
        \<longrightarrow> run_ascent (run ctx st c) = fontSize * 0.82)
     \<and> ((actualBoundingBoxDescent (m ctx c) = None \<or> actualBoundingBoxDescent (m ctx c) = Some 0)
        \<and> (fontBoundingBoxDescent (m ctx c) = None \<or> fontBoundingBoxDescent (m ctx c) = Some 0)
        \<longrightarrow> run_descent (run ctx st c) = fontSize * 0.18)
     \<and> (\<forall>l \<in> set (ps_lines (buildLines M ctx columnWidth fontSize lineHeightRatio tokens)).
          line_ascent l = Max (insert (fontSize * 0.8) (run_ascent ` set (line_runs l)))
        \<and> line_descent l = Max (insert (fontSize * 0.2) (run_descent ` set (line_runs l)))
        \<and> (line_runs l \<noteq> [] \<longrightarrow>
              line_height l = max (fontSize * lineHeightRatio) (line_ascent l + line_descent l))
        \<and> (line_runs l = [] \<longrightarrow> line_height l = fontSize * lineHeightRatio))
     \<and> line_height line \<le> line_height (addTextRun line ch metrics fontSize)
     \<and> line_height line \<le> line_height (addAssetRun line asset w h)"
proof (intro conjI)
  show "(actualBoundingBoxAscent (m ctx c) = None \<or> actualBoundingBoxAscent (m ctx c) = Some 0)
        \<and> (fontBoundingBoxAscent (m ctx c) = None \<or> fontBoundingBoxAscent (m ctx c) = Some 0)
        \<longrightarrow> run_ascent (run ctx st c) = fontSize * 0.82"
    unfolding run_def m_def last_run_pushTextChar
    by (simp add: textAscent_def or_else_default)
  show "(actualBoundingBoxDescent (m ctx c) = None \<or> actualBoundingBoxDescent (m ctx c) = Some 0)
        \<and> (fontBoundingBoxDescent (m ctx c) = None \<or> fontBoundingBoxDescent (m ctx c) = Some 0)
        \<longrightarrow> run_descent (run ctx st c) = fontSize * 0.18"
    unfolding run_def m_def last_run_pushTextChar
    by (simp add: textDescent_def or_else_default)
  show "\<forall>l \<in> set (ps_lines (buildLines M ctx columnWidth fontSize lineHeightRatio tokens)).
          line_ascent l = Max (insert (fontSize * 0.8) (run_ascent ` set (line_runs l)))
        \<and> line_descent l = Max (insert (fontSize * 0.2) (run_descent ` set (line_runs l)))
        \<and> (line_runs l \<noteq> [] \<longrightarrow>
              line_height l = max (fontSize * lineHeightRatio) (line_ascent l + line_descent l))
        \<and> (line_runs l = [] \<longrightarrow> line_height l = fontSize * lineHeightRatio)"
  proof
    fix l assume "l \<in> set (ps_lines (buildLines M ctx columnWidth fontSize lineHeightRatio tokens))"
    then have "lineMetricsOk fontSize lineHeightRatio l"
      using ok_buildLines [of fontSize lineHeightRatio M ctx columnWidth tokens]
      by (simp add: list_all_iff)
    then show "line_ascent l = Max (insert (fontSize * 0.8) (run_ascent ` set (line_runs l)))
        \<and> line_descent l = Max (insert (fontSize * 0.2) (run_descent ` set (line_runs l)))
        \<and> (line_runs l \<noteq> [] \<longrightarrow>
              line_height l = max (fontSize * lineHeightRatio) (line_ascent l + line_descent l))
        \<and> (line_runs l = [] \<longrightarrow> line_height l = fontSize * lineHeightRatio)"
      by (simp add: lineMetricsOk_def)
  qed
  show "line_height line \<le> line_height (addTextRun line ch metrics fontSize)"
    by (rule height_mono_text)
  show "line_height line \<le> line_height (addAssetRun line asset w h)"
    by (rule height_mono_asset)
qed

text \<open>The claim as stated fails in three places: a character without bounding-box
  metrics gets ascent 82 and descent 18 at font size 100, not 80 and 20; a line whose
  only run has ascent 10 keeps the starting ascent 80; and a line without runs at ratio
  0.5 has height 50 although its ascent plus descent is 100.\<close>

theorem line_metrics_counterexample:
  "actualBoundingBoxAscent (fixedProvider (createMeasureContext ''serif'' 100) ''a'') = None
   \<and> fontBoundingBoxAscent (fixedProvider (createMeasureContext ''serif'' 100) ''a'') = None
   \<and> run_ascent (last (line_runs (ps_currentLine (pushTextSegment fixedProvider
        (createMeasureContext ''serif'' 100) 1000 100 1.2 ''a'' (emptyPack 100 1.2))))) = 82
   \<and> run_descent (last (line_runs (ps_currentLine (pushTextSegment fixedProvider
        (createMeasureContext ''serif'' 100) 1000 100 1.2 ''a'' (emptyPack 100 1.2))))) = 18
   \<and> (82::real) \<noteq> 100 * 0.8 \<and> (18::real) \<noteq> 100 * 0.2
   \<and> line_ascent (hd (ps_lines (buildLines lowProvider (createMeasureContext ''serif'' 100)
        1000 100 1.2 [TextToken ''a'']))) = 80
   \<and> Max (run_ascent ` set (line_runs (hd (ps_lines (buildLines lowProvider
        (createMeasureContext ''serif'' 100) 1000 100 1.2 [TextToken ''a''])))))  = 10
   \<and> line_runs (hd (ps_lines (buildLines fixedProvider (createMeasureContext ''serif'' 100)
        1000 100 0.5 [TextToken [CHR 0x0A]]))) = []
   \<and> line_height (hd (ps_lines (buildLines fixedProvider (createMeasureContext ''serif'' 100)
        1000 100 0.5 [TextToken [CHR 0x0A]]))) = 50
   \<and> max (100 * 0.5)
        (line_ascent (hd (ps_lines (buildLines fixedProvider (createMeasureContext ''serif'' 100)
           1000 100 0.5 [TextToken [CHR 0x0A]])))
         + line_descent (hd (ps_lines (buildLines fixedProvider (createMeasureContext ''serif'' 100)
           1000 100 0.5 [TextToken [CHR 0x0A]])))) = (100::real)"
proof (intro conjI)
  show "actualBoundingBoxAscent (fixedProvider (createMeasureContext ''serif'' 100) ''a'') = None"
    by (simp add: fixedProvider_def)
  show "fontBoundingBoxAscent (fixedProvider (createMeasureContext ''serif'' 100) ''a'') = None"
    by (simp add: fixedProvider_def)
  show "run_ascent (last (line_runs (ps_currentLine (pushTextSegment fixedProvider
        (createMeasureContext ''serif'' 100) 1000 100 1.2 ''a'' (emptyPack 100 1.2))))) = 82"
    by code_simp
  show "run_descent (last (line_runs (ps_currentLine (pushTextSegment fixedProvider
        (createMeasureContext ''serif'' 100) 1000 100 1.2 ''a'' (emptyPack 100 1.2))))) = 18"
    by code_simp
  show "(82::real) \<noteq> 100 * 0.8" by simp
  show "(18::real) \<noteq> 100 * 0.2" by simp
  show "line_ascent (hd (ps_lines (buildLines lowProvider (createMeasureContext ''serif'' 100)
        1000 100 1.2 [TextToken ''a'']))) = 80"
    by code_simp
  show "Max (run_ascent ` set (line_runs (hd (ps_lines (buildLines lowProvider
        (createMeasureContext ''serif'' 100) 1000 100 1.2 [TextToken ''a''])))))  = 10"
    by code_simp
  show "line_runs (hd (ps_lines (buildLines fixedProvider (createMeasureContext ''serif'' 100)
        1000 100 0.5 [TextToken [CHR 0x0A]]))) = []"
    by code_simp
  show "line_height (hd (ps_lines (buildLines fixedProvider (createMeasureContext ''serif'' 100)
        1000 100 0.5 [TextToken [CHR 0x0A]]))) = 50"
    by code_simp
  show "max (100 * 0.5)
        (line_ascent (hd (ps_lines (buildLines fixedProvider (createMeasureContext ''serif'' 100)
           1000 100 0.5 [TextToken [CHR 0x0A]])))
         + line_descent (hd (ps_lines (buildLines fixedProvider (createMeasureContext ''serif'' 100)
           1000 100 0.5 [TextToken [CHR 0x0A]])))) = (100::real)"
    by code_simp
qed

theorem line_metrics_spec_witness:
  "actualBoundingBoxAscent (fixedProvider (createMeasureContext ''serif'' 100) ''a'') = None
   \<and> fontBoundingBoxAscent (fixedProvider (createMeasureContext ''serif'' 100) ''a'') = None
   \<and> run_ascent (last (line_runs (ps_currentLine (pushTextChar fixedProvider
        (createMeasureContext ''serif'' 100) 1000 100 1.2 (emptyPack 100 1.2) (CHR ''a'')))))
       = 100 * 0.82
   \<and> hd (ps_lines (buildLines fixedProvider (createMeasureContext ''serif'' 100) 1000 100 1.2
           [TextToken ''a'']))
       \<in> set (ps_lines (buildLines fixedProvider (createMeasureContext ''serif'' 100) 1000 100
           1.2 [TextToken ''a'']))
   \<and> line_runs (hd (ps_lines (buildLines fixedProvider (createMeasureContext ''serif'' 100)
        1000 100 1.2 [TextToken ''a'']))) \<noteq> []
   \<and> line_height (hd (ps_lines (buildLines fixedProvider (createMeasureContext ''serif'' 100)
        1000 100 1.2 [TextToken ''a''])))
       = max (100 * 1.2)
           (line_ascent (hd (ps_lines (buildLines fixedProvider
              (createMeasureContext ''serif'' 100) 1000 100 1.2 [TextToken ''a''])))
            + line_descent (hd (ps_lines (buildLines fixedProvider
              (createMeasureContext ''serif'' 100) 1000 100 1.2 [TextToken ''a'']))))"
proof -
  let ?ctx = "createMeasureContext ''serif'' 100"
  let ?L = "ps_lines (buildLines fixedProvider ?ctx 1000 100 1.2 [TextToken ''a''])"
  note t = line_metrics_spec [where M = fixedProvider and ctx = ?ctx and c = "CHR ''a''"
      and st = "emptyPack 100 1.2" and columnWidth = 1000 and fontSize = 100
      and lineHeightRatio = "1.2" and tokens = "[TextToken ''a'']"]
  have a: "actualBoundingBoxAscent (fixedProvider ?ctx ''a'') = None"
    by (simp add: fixedProvider_def)
  have f: "fontBoundingBoxAscent (fixedProvider ?ctx ''a'') = None"
    by (simp add: fixedProvider_def)
  have r: "run_ascent (last (line_runs (ps_currentLine (pushTextChar fixedProvider ?ctx 1000 100
             1.2 (emptyPack 100 1.2) (CHR ''a''))))) = 100 * 0.82"
    using t [THEN conjunct1] a f by simp
  have ne: "?L \<noteq> []" by code_simp
  then have m: "hd ?L \<in> set ?L" by simp
  have n: "line_runs (hd ?L) \<noteq> []" by code_simp
  have h: "line_height (hd ?L) = max (100 * 1.2) (line_ascent (hd ?L) + line_descent (hd ?L))"
    using t [THEN conjunct2, THEN conjunct2, THEN conjunct1] m n by blast
  from a f r m n h show ?thesis by (intro conjI)
qed

end
